theory Spec2Isabelle
  imports Main
begin

section \<open>Data model\<close>

text \<open>
  A cell of a board holds a Python value of type \<open>int | str\<close>: a digit, or the
  caller's empty indicator. Python's \<open>==\<close> between an int and a str is false, which
  is the equality of this datatype. A board is a list of rows (\<open>list[list[int]]\<close>);
  every board the repository builds has nine distinct row objects, so rows are
  modelled by value.
\<close>

datatype cell = IntV int | StrV string

type_synonym board = "cell list list"

datatype error = IndexError | ValueError

text \<open>Python's \<open>xs[i]\<close>: a negative index counts from the end, anything else out of
  range raises IndexError.\<close>

definition py_getitem :: "'a list \<Rightarrow> int \<Rightarrow> error + 'a" where
  "py_getitem xs i =
     (let n = int (length xs) in
      if 0 \<le> i \<and> i < n then Inr (xs ! nat i)
      else if - n \<le> i \<and> i < 0 then Inr (xs ! nat (i + n))
      else Inl IndexError)"

text \<open>Python's \<open>xs[i] = v\<close>.\<close>

definition py_setitem :: "'a list \<Rightarrow> int \<Rightarrow> 'a \<Rightarrow> error + 'a list" where
  "py_setitem xs i v =
     (let n = int (length xs) in
      if 0 \<le> i \<and> i < n then Inr (xs[nat i := v])
      else if - n \<le> i \<and> i < 0 then Inr (xs[nat (i + n) := v])
      else Inl IndexError)"

text \<open>Python's \<open>xs[a:b]\<close>: both bounds are clamped, a negative bound counts from the
  end, and the slice never raises.\<close>

definition py_clamp :: "int \<Rightarrow> int \<Rightarrow> int" where
  "py_clamp n i = (if i < 0 then max (i + n) 0 else min i n)"

definition py_slice :: "'a list \<Rightarrow> int \<Rightarrow> int \<Rightarrow> 'a list" where
  "py_slice xs a b =
     (let n = int (length xs); lo = py_clamp n a; hi = py_clamp n b
      in take (nat (hi - lo)) (drop (nat lo) xs))"

text \<open>\<open>board[row][col]\<close> and \<open>board[row][col] = v\<close>.\<close>

definition get_cell :: "board \<Rightarrow> int \<Rightarrow> int \<Rightarrow> error + cell" where
  "get_cell b row col =
     (case py_getitem b row of Inl err \<Rightarrow> Inl err | Inr r \<Rightarrow> py_getitem r col)"

definition set_cell :: "board \<Rightarrow> int \<Rightarrow> int \<Rightarrow> cell \<Rightarrow> error + board" where
  "set_cell b row col v =
     (case py_getitem b row of
        Inl err \<Rightarrow> Inl err
      | Inr r \<Rightarrow> (case py_setitem r col v of
                   Inl err \<Rightarrow> Inl err
                 | Inr r' \<Rightarrow> py_setitem b row r'))"

section \<open>Validator (sudoku\_validator.py)\<close>

text \<open>The loop \<open>for i in range(3): square += board[y + i][x: x + 3]\<close>.\<close>

fun square_rows :: "board \<Rightarrow> int \<Rightarrow> int \<Rightarrow> int list \<Rightarrow> cell list \<Rightarrow> error + cell list" where
  "square_rows b y x [] square = Inr square"
| "square_rows b y x (i # is) square =
     (case py_getitem b (y + i) of
        Inl err \<Rightarrow> Inl err
      | Inr r \<Rightarrow> square_rows b y x is (square @ py_slice r x (x + 3)))"

definition get_values_in_square :: "board \<Rightarrow> int \<Rightarrow> int \<Rightarrow> error + cell list" where
  "get_values_in_square b row_index col_index =
     (let y = (row_index div 3) * 3; x = (col_index div 3) * 3
      in square_rows b y x [0, 1, 2] [])"

text \<open>The comprehension \<open>[row[col_index] for row in board]\<close>.\<close>

fun column_of :: "board \<Rightarrow> int \<Rightarrow> error + cell list" where
  "column_of [] col_index = Inr []"
| "column_of (r # rs) col_index =
     (case py_getitem r col_index of
        Inl err \<Rightarrow> Inl err
      | Inr v \<Rightarrow> (case column_of rs col_index of
                   Inl err \<Rightarrow> Inl err
                 | Inr vs \<Rightarrow> Inr (v # vs)))"

definition is_valid_entry :: "board \<Rightarrow> int \<Rightarrow> int \<Rightarrow> cell \<Rightarrow> error + bool" where
  "is_valid_entry b row_index col_index val =
     (case column_of b col_index of
        Inl err \<Rightarrow> Inl err
      | Inr column \<Rightarrow>
          (case py_getitem b row_index of
             Inl err \<Rightarrow> Inl err
           | Inr row \<Rightarrow>
               (case get_values_in_square b row_index col_index of
                  Inl err \<Rightarrow> Inl err
                | Inr square \<Rightarrow>
                    if val \<in> set (column @ row @ square) then Inr False else Inr True)))"

text \<open>
  The two nested \<open>for\<close> loops of \<open>is_valid_board\<close> over the cells in row-major order.
  The result carries the board as the caller sees it afterwards.
\<close>

fun valid_cells :: "board \<Rightarrow> cell \<Rightarrow> (int \<times> int) list \<Rightarrow> error + bool \<times> board" where
  "valid_cells b e [] = Inr (True, b)"
| "valid_cells b e ((row, col) # ps) =
     (case get_cell b row col of
        Inl err \<Rightarrow> Inl err
      | Inr val \<Rightarrow>
          if val = e then valid_cells b e ps
          else (case set_cell b row col e of
                  Inl err \<Rightarrow> Inl err
                | Inr b1 \<Rightarrow>
                    (case is_valid_entry b1 row col val of
                       Inl err \<Rightarrow> Inl err
                     | Inr ok \<Rightarrow>
                         if \<not> ok then Inr (False, b1)
                         else (case set_cell b1 row col val of
                                 Inl err \<Rightarrow> Inl err
                               | Inr b2 \<Rightarrow> valid_cells b2 e ps))))"

definition is_valid_board :: "board \<Rightarrow> cell \<Rightarrow> error + bool \<times> board" where
  "is_valid_board b e =
     (if length b \<noteq> 9 \<or> (\<exists>row \<in> set b. length row \<noteq> 9) then Inl ValueError
      else valid_cells b e (List.product [0..8] [0..8]))"

section \<open>Solver (sudoku\_solver.py)\<close>

fun get_empty_row :: "cell list \<Rightarrow> cell \<Rightarrow> int list \<Rightarrow> error + int option" where
  "get_empty_row r e [] = Inr None"
| "get_empty_row r e (x # xs) =
     (case py_getitem r x of
        Inl err \<Rightarrow> Inl err
      | Inr v \<Rightarrow> if v = e then Inr (Some x) else get_empty_row r e xs)"

fun get_empty_rows :: "board \<Rightarrow> cell \<Rightarrow> int list \<Rightarrow> error + (int \<times> int) option" where
  "get_empty_rows b e [] = Inr None"
| "get_empty_rows b e (y # ys) =
     (case py_getitem b y of
        Inl err \<Rightarrow> Inl err
      | Inr r \<Rightarrow>
          (case get_empty_row r e [0..8] of
             Inl err \<Rightarrow> Inl err
           | Inr (Some x) \<Rightarrow> Inr (Some (y, x))
           | Inr None \<Rightarrow> get_empty_rows b e ys))"

text \<open>\<open>None\<close> stands for the empty tuple \<open>()\<close>.\<close>

definition get_empty :: "board \<Rightarrow> cell \<Rightarrow> error + (int \<times> int) option" where
  "get_empty b e = get_empty_rows b e [0..8]"

text \<open>
  \<open>fill_board\<close> recurses once per placed digit. The first argument bounds the depth
  of the recursion; \<open>None\<close> means the bound was too small.
\<close>

fun fill_board_fuel :: "nat \<Rightarrow> board \<Rightarrow> cell \<Rightarrow> (error + bool \<times> board) option"
  and fill_try :: "nat \<Rightarrow> board \<Rightarrow> cell \<Rightarrow> int \<Rightarrow> int \<Rightarrow> int list \<Rightarrow> (error + bool \<times> board) option"
where
  "fill_board_fuel 0 b e = None"
| "fill_board_fuel (Suc n) b e =
     (case get_empty b e of
        Inl err \<Rightarrow> Some (Inl err)
      | Inr None \<Rightarrow> Some (Inr (True, b))
      | Inr (Some (row_index, col_index)) \<Rightarrow> fill_try n b e row_index col_index [1..9])"
| "fill_try n b e row_index col_index [] = Some (Inr (False, b))"
| "fill_try n b e row_index col_index (v # vs) =
     (case is_valid_entry b row_index col_index (IntV v) of
        Inl err \<Rightarrow> Some (Inl err)
      | Inr ok \<Rightarrow>
          if ok then
            (case set_cell b row_index col_index (IntV v) of
               Inl err \<Rightarrow> Some (Inl err)
             | Inr b1 \<Rightarrow>
                 (case fill_board_fuel n b1 e of
                    None \<Rightarrow> None
                  | Some (Inl err) \<Rightarrow> Some (Inl err)
                  | Some (Inr (filled, b2)) \<Rightarrow>
                      if filled then Some (Inr (True, b2))
                      else (case set_cell b2 row_index col_index e of
                              Inl err \<Rightarrow> Some (Inl err)
                            | Inr b3 \<Rightarrow> fill_try n b3 e row_index col_index vs)))
          else fill_try n b e row_index col_index vs)"

definition count_empty :: "board \<Rightarrow> cell \<Rightarrow> nat" where
  "count_empty b e = length (filter (\<lambda>v. v = e) (concat b))"

definition fill_board :: "board \<Rightarrow> cell \<Rightarrow> (error + bool \<times> board) option" where
  "fill_board b e = fill_board_fuel (Suc (count_empty b e)) b e"

section \<open>Solution counter and generator (sudoku\_generator.py)\<close>

text \<open>
  \<open>count_solutions\<close>, with the same bound on the depth of the recursion. The result
  is the returned count together with the board as the caller sees it afterwards.
\<close>

fun count_solutions_fuel :: "nat \<Rightarrow> board \<Rightarrow> int \<Rightarrow> cell \<Rightarrow> (error + int \<times> board) option"
  and count_try ::
    "nat \<Rightarrow> board \<Rightarrow> int \<Rightarrow> cell \<Rightarrow> int \<Rightarrow> int \<Rightarrow> int list \<Rightarrow> int \<Rightarrow> (error + int \<times> board) option"
where
  "count_solutions_fuel 0 b limit e = None"
| "count_solutions_fuel (Suc n) b limit e =
     (case get_empty b e of
        Inl err \<Rightarrow> Some (Inl err)
      | Inr None \<Rightarrow> Some (Inr (1, b))
      | Inr (Some (row, col)) \<Rightarrow> count_try n b limit e row col [1..9] 0)"
| "count_try n b limit e row col [] count = Some (Inr (count, b))"
| "count_try n b limit e row col (num # nums) count =
     (case is_valid_entry b row col (IntV num) of
        Inl err \<Rightarrow> Some (Inl err)
      | Inr ok \<Rightarrow>
          if ok then
            (case set_cell b row col (IntV num) of
               Inl err \<Rightarrow> Some (Inl err)
             | Inr b1 \<Rightarrow>
                 (case count_solutions_fuel n b1 limit e of
                    None \<Rightarrow> None
                  | Some (Inl err) \<Rightarrow> Some (Inl err)
                  | Some (Inr (k, b2)) \<Rightarrow>
                      (case set_cell b2 row col e of
                         Inl err \<Rightarrow> Some (Inl err)
                       | Inr b3 \<Rightarrow>
                           if count + k \<ge> limit then Some (Inr (count + k, b3))
                           else count_try n b3 limit e row col nums (count + k))))
          else count_try n b limit e row col nums count)"

definition count_solutions :: "board \<Rightarrow> int \<Rightarrow> cell \<Rightarrow> (error + int \<times> board) option" where
  "count_solutions b limit e = count_solutions_fuel (Suc (count_empty b e)) b limit e"

text \<open>
  The random module is an input of the model: \<open>draws i\<close> is the pair
  \<open>random.randint(0, 8), random.randint(0, 8)\<close> of the \<open>i\<close>-th iteration of a
  carving loop. A state of the loop of \<open>_create_unique_board\<close> is the board with the
  counters \<open>empties\<close> and \<open>attempts\<close>; every iteration draws one pair and adds one
  to \<open>attempts\<close>, so the number of the iteration is \<open>attempts\<close>.
  \<open>count_solutions\<close> runs on a copy, so its board is dropped.
\<close>

definition unique_body ::
  "(nat \<Rightarrow> int \<times> int) \<Rightarrow> cell \<Rightarrow> board \<times> int \<times> nat \<Rightarrow> (error + board \<times> int \<times> nat) option" where
  "unique_body draws e s =
     (case s of (b, empties, attempts) \<Rightarrow>
        (case draws attempts of (row, col) \<Rightarrow>
           (case get_cell b row col of
              Inl err \<Rightarrow> Some (Inl err)
            | Inr backup_value \<Rightarrow>
                if backup_value = e then Some (Inr (b, empties, attempts + 1))
                else (case set_cell b row col e of
                        Inl err \<Rightarrow> Some (Inl err)
                      | Inr b1 \<Rightarrow>
                          (case count_solutions b1 2 e of
                             None \<Rightarrow> None
                           | Some (Inl err) \<Rightarrow> Some (Inl err)
                           | Some (Inr (solutions, board_copy)) \<Rightarrow>
                               if solutions = 1 then Some (Inr (b1, empties + 1, attempts + 1))
                               else (case set_cell b1 row col backup_value of
                                       Inl err \<Rightarrow> Some (Inl err)
                                     | Inr b2 \<Rightarrow> Some (Inr (b2, empties, attempts + 1))))))))"

definition unique_cond :: "int \<Rightarrow> board \<times> int \<times> nat \<Rightarrow> bool" where
  "unique_cond total_empties s =
     (case s of (b, empties, attempts) \<Rightarrow> empties < total_empties \<and> attempts < 81 * 3)"

function unique_loop ::
  "(nat \<Rightarrow> int \<times> int) \<Rightarrow> int \<Rightarrow> cell \<Rightarrow> board \<times> int \<times> nat \<Rightarrow> (error + board \<times> int \<times> nat) option" where
  "unique_loop draws total_empties e s =
     (if unique_cond total_empties s then
        (case unique_body draws e s of
           None \<Rightarrow> None
         | Some (Inl err) \<Rightarrow> Some (Inl err)
         | Some (Inr s') \<Rightarrow> unique_loop draws total_empties e s')
      else Some (Inr s))"
  by pat_completeness auto
termination
  by (relation "measure (\<lambda>(draws, total_empties, e, b, empties, attempts). 243 - attempts)")
     (auto simp: unique_body_def unique_cond_def
           split: prod.splits sum.splits option.splits if_splits)

declare unique_loop.simps [simp del]

definition create_unique_board ::
  "board \<Rightarrow> int \<Rightarrow> cell \<Rightarrow> (nat \<Rightarrow> int \<times> int) \<Rightarrow> (error + board) option" where
  "create_unique_board b total_empties e draws =
     (case unique_loop draws total_empties e (b, 0, 0) of
        None \<Rightarrow> None
      | Some (Inl err) \<Rightarrow> Some (Inl err)
      | Some (Inr (b', empties, attempts)) \<Rightarrow> Some (Inr b'))"

text \<open>
  The loop \<open>while total_empties > 0\<close> of the non-unique policy; \<open>i\<close> counts its
  iterations. It runs for as long as the draws keep hitting empty cells, so it is a
  partial function: \<open>None\<close> is a call that does not return.
\<close>

partial_function (option) carve_loop ::
  "(nat \<Rightarrow> int \<times> int) \<Rightarrow> cell \<Rightarrow> nat \<Rightarrow> board \<Rightarrow> int \<Rightarrow> (error + board) option" where
  "carve_loop draws e i b total_empties =
     (if total_empties > 0 then
        (case draws i of (row, col) \<Rightarrow>
           (case get_cell b row col of
              Inl err \<Rightarrow> Some (Inl err)
            | Inr v \<Rightarrow>
                if v = e then carve_loop draws e (i + 1) b total_empties
                else (case set_cell b row col e of
                        Inl err \<Rightarrow> Some (Inl err)
                      | Inr b1 \<Rightarrow> carve_loop draws e (i + 1) b1 (total_empties - 1))))
      else Some (Inr b))"

declare carve_loop.simps [code]

text \<open>The loop \<open>for col, value in zip(cells, values): board[0][col] = value\<close>.\<close>

fun place_seeds :: "board \<Rightarrow> (int \<times> int) list \<Rightarrow> error + board" where
  "place_seeds b [] = Inr b"
| "place_seeds b ((col, val) # rest) =
     (case set_cell b 0 col (IntV val) of
        Inl err \<Rightarrow> Inl err
      | Inr b1 \<Rightarrow> place_seeds b1 rest)"

text \<open>
  \<open>generate\<close>: \<open>cells\<close> and \<open>vals\<close> are the results of the two calls of
  \<open>random.sample\<close>, \<open>draws\<close> the later calls of \<open>random.randint\<close>. The result of
  \<open>fill_board\<close> is not looked at, only the board it leaves.
\<close>

definition generate ::
  "int \<Rightarrow> bool \<Rightarrow> cell \<Rightarrow> int list \<Rightarrow> int list \<Rightarrow> (nat \<Rightarrow> int \<times> int) \<Rightarrow> (error + board \<times> board) option" where
  "generate total_empties unique e cells vals draws =
     (let board = replicate 9 (replicate 9 e) in
      if \<not> (0 < total_empties \<and> total_empties \<le> 81) then Some (Inl ValueError)
      else (case place_seeds board (zip cells vals) of
              Inl err \<Rightarrow> Some (Inl err)
            | Inr b0 \<Rightarrow>
                (case fill_board b0 e of
                   None \<Rightarrow> None
                 | Some (Inl err) \<Rightarrow> Some (Inl err)
                 | Some (Inr (filled, solved_board)) \<Rightarrow>
                     if unique then
                       (case create_unique_board solved_board total_empties e draws of
                          None \<Rightarrow> None
                        | Some (Inl err) \<Rightarrow> Some (Inl err)
                        | Some (Inr b1) \<Rightarrow> Some (Inr (b1, solved_board)))
                     else
                       (case carve_loop draws e 0 solved_board total_empties of
                          None \<Rightarrow> None
                        | Some (Inl err) \<Rightarrow> Some (Inl err)
                        | Some (Inr b1) \<Rightarrow> Some (Inr (b1, solved_board))))))"

section \<open>Vocabulary of the properties\<close>

definition is9x9 :: "board \<Rightarrow> bool" where
  "is9x9 b \<longleftrightarrow> length b = 9 \<and> (\<forall>row \<in> set b. length row = 9)"

text \<open>Two positions are related when they share a row, a column or a 3x3 box.\<close>

definition related :: "nat \<Rightarrow> nat \<Rightarrow> nat \<Rightarrow> nat \<Rightarrow> bool" where
  "related r c r' c' \<longleftrightarrow> r' = r \<or> c' = c \<or> (r' div 3 = r div 3 \<and> c' div 3 = c div 3)"

definition upd :: "board \<Rightarrow> nat \<Rightarrow> nat \<Rightarrow> cell \<Rightarrow> board" where
  "upd b r c v = b[r := (b ! r)[c := v]]"

definition is_digit :: "cell \<Rightarrow> bool" where
  "is_digit v \<longleftrightarrow> (\<exists>d. v = IntV d \<and> 1 \<le> d \<and> d \<le> 9)"

text \<open>No cell holds the empty indicator.\<close>

definition full_board :: "board \<Rightarrow> cell \<Rightarrow> bool" where
  "full_board b e \<longleftrightarrow> (\<forall>r<9. \<forall>c<9. b ! r ! c \<noteq> e)"

text \<open>\<open>s\<close> agrees with \<open>b\<close> on every non-empty cell of \<open>b\<close>.\<close>

definition extends :: "board \<Rightarrow> board \<Rightarrow> cell \<Rightarrow> bool" where
  "extends b s e \<longleftrightarrow> (\<forall>r<9. \<forall>c<9. b ! r ! c \<noteq> e \<longrightarrow> s ! r ! c = b ! r ! c)"

text \<open>No non-empty value occurs twice in a row, a column or a box.\<close>

definition legal :: "board \<Rightarrow> cell \<Rightarrow> bool" where
  "legal b e \<longleftrightarrow>
     (\<forall>r<9. \<forall>c<9. \<forall>r'<9. \<forall>c'<9.
        related r c r' c' \<and> (r', c') \<noteq> (r, c) \<and> b ! r ! c \<noteq> e \<longrightarrow> b ! r' ! c' \<noteq> b ! r ! c)"

text \<open>
  What a call of \<open>fill_board\<close> on \<open>b\<close> leaves behind: with result true a complete
  board that keeps the cells given in \<open>b\<close>, with result false the board \<open>b\<close> itself.
\<close>

definition fill_result :: "board \<Rightarrow> cell \<Rightarrow> bool \<Rightarrow> board \<Rightarrow> bool" where
  "fill_result b e ok b' \<longleftrightarrow>
     (if ok then is9x9 b' \<and> full_board b' e \<and> extends b b' e \<and> (legal b e \<longrightarrow> legal b' e)
      else b' = b)"

text \<open>A complete legal grid of digits.\<close>

definition solution :: "board \<Rightarrow> cell \<Rightarrow> bool" where
  "solution s e \<longleftrightarrow> is9x9 s \<and> (\<forall>r<9. \<forall>c<9. is_digit (s ! r ! c)) \<and> legal s e"

text \<open>
  A family of complete legal grids: the cyclic pattern, with its nine symbols renamed
  by \<open>f\<close>. Its first row is \<open>f 0, \<dots>, f 8\<close>.
\<close>

definition pattern_digit :: "nat \<Rightarrow> nat \<Rightarrow> nat" where
  "pattern_digit r c = (3 * (r mod 3) + r div 3 + c) mod 9"

definition pattern_grid :: "(nat \<Rightarrow> int) \<Rightarrow> board" where
  "pattern_grid f = map (\<lambda>r. map (\<lambda>c. IntV (f (pattern_digit r c))) [0..<9]) [0..<9]"

text \<open>What \<open>random.sample\<close> and \<open>random.randint(0, 8)\<close> can return.\<close>

definition seeds_ok :: "int list \<Rightarrow> int list \<Rightarrow> bool" where
  "seeds_ok cells vals \<longleftrightarrow>
     length cells = 3 \<and> distinct cells \<and> (\<forall>c \<in> set cells. 0 \<le> c \<and> c \<le> 8) \<and>
     length vals = 3 \<and> distinct vals \<and> (\<forall>v \<in> set vals. 1 \<le> v \<and> v \<le> 9)"

definition draws_ok :: "(nat \<Rightarrow> int \<times> int) \<Rightarrow> bool" where
  "draws_ok draws \<longleftrightarrow>
     (\<forall>i. 0 \<le> fst (draws i) \<and> fst (draws i) \<le> 8 \<and> 0 \<le> snd (draws i) \<and> snd (draws i) \<le> 8)"

text \<open>The state of the unique-policy loop after \<open>n\<close> iterations of its body.\<close>

fun iterate_body ::
  "(nat \<Rightarrow> int \<times> int) \<Rightarrow> cell \<Rightarrow> nat \<Rightarrow> board \<times> int \<times> nat \<Rightarrow> (error + board \<times> int \<times> nat) option" where
  "iterate_body draws e 0 s = Some (Inr s)"
| "iterate_body draws e (Suc n) s =
     (case iterate_body draws e n s of
        None \<Rightarrow> None
      | Some (Inl err) \<Rightarrow> Some (Inl err)
      | Some (Inr s') \<Rightarrow> unique_body draws e s')"

section \<open>Example boards\<close>

text \<open>
  The board that \<open>generate\<close> seeds when \<open>random.sample\<close> returns the columns
  \<open>[0, 6, 8]\<close> and the values \<open>[5, 6, 1]\<close> with empty indicator \<open>0\<close>, and the
  grid \<open>fill_board\<close> completes it to.
\<close>

definition seeded_example :: board where
  "seeded_example = map (map IntV)
    [[5, 0, 0, 0, 0, 0, 6, 0, 1],
     [0, 0, 0, 0, 0, 0, 0, 0, 0],
     [0, 0, 0, 0, 0, 0, 0, 0, 0],
     [0, 0, 0, 0, 0, 0, 0, 0, 0],
     [0, 0, 0, 0, 0, 0, 0, 0, 0],
     [0, 0, 0, 0, 0, 0, 0, 0, 0],
     [0, 0, 0, 0, 0, 0, 0, 0, 0],
     [0, 0, 0, 0, 0, 0, 0, 0, 0],
     [0, 0, 0, 0, 0, 0, 0, 0, 0]]"

definition solved_example :: board where
  "solved_example = map (map IntV)
    [[5, 2, 3, 4, 7, 8, 6, 9, 1],
     [1, 4, 6, 2, 3, 9, 5, 7, 8],
     [7, 8, 9, 1, 5, 6, 2, 3, 4],
     [2, 1, 4, 3, 6, 5, 7, 8, 9],
     [3, 5, 7, 8, 9, 1, 4, 2, 6],
     [6, 9, 8, 7, 2, 4, 1, 5, 3],
     [4, 3, 1, 5, 8, 2, 9, 6, 7],
     [8, 6, 2, 9, 1, 7, 3, 4, 5],
     [9, 7, 5, 6, 4, 3, 8, 1, 2]]"

text \<open>The solved example with the cells of its first five rows cleared.\<close>

definition carved_example :: board where
  "carved_example = map (map IntV)
    [[0, 0, 0, 0, 0, 0, 0, 0, 0],
     [0, 0, 0, 0, 0, 0, 0, 0, 0],
     [0, 0, 0, 0, 0, 0, 0, 0, 0],
     [0, 0, 0, 0, 0, 0, 0, 0, 0],
     [0, 0, 0, 0, 0, 0, 0, 0, 0],
     [6, 9, 8, 7, 2, 4, 1, 5, 3],
     [4, 3, 1, 5, 8, 2, 9, 6, 7],
     [8, 6, 2, 9, 1, 7, 3, 4, 5],
     [9, 7, 5, 6, 4, 3, 8, 1, 2]]"

text \<open>The solved example with its top left cell cleared.\<close>

definition single_example :: board where
  "single_example = map (map IntV)
    [[0, 2, 3, 4, 7, 8, 6, 9, 1],
     [1, 4, 6, 2, 3, 9, 5, 7, 8],
     [7, 8, 9, 1, 5, 6, 2, 3, 4],
     [2, 1, 4, 3, 6, 5, 7, 8, 9],
     [3, 5, 7, 8, 9, 1, 4, 2, 6],
     [6, 9, 8, 7, 2, 4, 1, 5, 3],
     [4, 3, 1, 5, 8, 2, 9, 6, 7],
     [8, 6, 2, 9, 1, 7, 3, 4, 5],
     [9, 7, 5, 6, 4, 3, 8, 1, 2]]"

text \<open>The solved example with seven cells cleared: a puzzle with three completions.\<close>

definition multi_example :: board where
  "multi_example = map (map IntV)
    [[5, 2, 3, 0, 7, 8, 6, 9, 0],
     [1, 0, 6, 2, 3, 9, 5, 7, 0],
     [7, 0, 9, 0, 5, 6, 2, 3, 0],
     [2, 1, 4, 3, 6, 5, 7, 8, 9],
     [3, 5, 7, 8, 9, 1, 4, 2, 6],
     [6, 9, 8, 7, 2, 4, 1, 5, 3],
     [4, 3, 1, 5, 8, 2, 9, 6, 7],
     [8, 6, 2, 9, 1, 7, 3, 4, 5],
     [9, 7, 5, 6, 4, 3, 8, 1, 2]]"

text \<open>The solved example with \<open>board[0][1] = 5\<close>: two fives in row 0, no empty cell.\<close>

definition duplicate_example :: board where
  "duplicate_example = map (map IntV)
    [[5, 5, 3, 4, 7, 8, 6, 9, 1],
     [1, 4, 6, 2, 3, 9, 5, 7, 8],
     [7, 8, 9, 1, 5, 6, 2, 3, 4],
     [2, 1, 4, 3, 6, 5, 7, 8, 9],
     [3, 5, 7, 8, 9, 1, 4, 2, 6],
     [6, 9, 8, 7, 2, 4, 1, 5, 3],
     [4, 3, 1, 5, 8, 2, 9, 6, 7],
     [8, 6, 2, 9, 1, 7, 3, 4, 5],
     [9, 7, 5, 6, 4, 3, 8, 1, 2]]"

text \<open>What \<open>is_valid_board\<close> leaves of it.\<close>

definition duplicate_example_after :: board where
  "duplicate_example_after = map (map IntV)
    [[0, 5, 3, 4, 7, 8, 6, 9, 1],
     [1, 4, 6, 2, 3, 9, 5, 7, 8],
     [7, 8, 9, 1, 5, 6, 2, 3, 4],
     [2, 1, 4, 3, 6, 5, 7, 8, 9],
     [3, 5, 7, 8, 9, 1, 4, 2, 6],
     [6, 9, 8, 7, 2, 4, 1, 5, 3],
     [4, 3, 1, 5, 8, 2, 9, 6, 7],
     [8, 6, 2, 9, 1, 7, 3, 4, 5],
     [9, 7, 5, 6, 4, 3, 8, 1, 2]]"

text \<open>Two twos in row 4 and four empty cells; no legal digit is left for the last one.\<close>

definition unsolvable_example :: board where
  "unsolvable_example = map (map IntV)
    [[5, 2, 3, 4, 7, 0, 6, 9, 1],
     [1, 4, 6, 2, 3, 9, 5, 7, 8],
     [7, 8, 9, 1, 5, 6, 0, 3, 0],
     [2, 1, 4, 3, 6, 5, 7, 8, 9],
     [3, 5, 7, 8, 9, 1, 2, 2, 6],
     [6, 9, 8, 7, 2, 4, 1, 5, 3],
     [4, 3, 1, 5, 8, 2, 0, 6, 7],
     [8, 6, 2, 9, 1, 7, 3, 4, 5],
     [9, 7, 5, 6, 4, 3, 8, 1, 2]]"

text \<open>Draws that walk through the cells in row-major order, and draws that always hit
  the top left cell.\<close>

definition row_major :: "nat \<Rightarrow> int \<times> int" where
  "row_major i = (int (i div 9 mod 9), int (i mod 9))"

definition top_left :: "nat \<Rightarrow> int \<times> int" where
  "top_left i = (0, 0)"

section \<open>Lists, cells and the validator\<close>

lemma upto_0_8: "[0..8] = [0, 1, 2, 3, 4, 5, 6, 7, (8::int)]"
  by code_simp

lemma upto_1_9: "[1..9] = [1, 2, 3, 4, 5, 6, 7, 8, (9::int)]"
  by code_simp

lemma py_getitem_nat: "i < length xs \<Longrightarrow> py_getitem xs (int i) = Inr (xs ! i)"
  by (simp add: py_getitem_def)

lemma py_setitem_nat: "i < length xs \<Longrightarrow> py_setitem xs (int i) v = Inr (xs[i := v])"
  by (simp add: py_setitem_def)

lemma is9x9_row: "is9x9 b \<Longrightarrow> r < 9 \<Longrightarrow> length (b ! r) = 9"
  unfolding is9x9_def using nth_mem [of r b] by auto

lemma is9x9_len: "is9x9 b \<Longrightarrow> length b = 9"
  by (simp add: is9x9_def)

lemma get_cell_nat:
  "is9x9 b \<Longrightarrow> r < 9 \<Longrightarrow> c < 9 \<Longrightarrow> get_cell b (int r) (int c) = Inr (b ! r ! c)"
  by (simp add: get_cell_def py_getitem_nat is9x9_len is9x9_row)

lemma set_cell_nat:
  "is9x9 b \<Longrightarrow> r < 9 \<Longrightarrow> c < 9 \<Longrightarrow> set_cell b (int r) (int c) v = Inr (upd b r c v)"
  by (simp add: set_cell_def upd_def py_getitem_nat py_setitem_nat is9x9_len is9x9_row)

lemma is9x9_upd: "is9x9 b \<Longrightarrow> is9x9 (upd b r c v)"
proof (cases "r < length b")
  case True
  assume "is9x9 b"
  then show ?thesis
    using True nth_mem [OF True] set_update_subset_insert [of b r "(b ! r)[c := v]"]
    unfolding is9x9_def upd_def by auto
next
  case False
  assume "is9x9 b"
  then show ?thesis using False by (simp add: upd_def list_update_beyond)
qed

lemma upd_at:
  "is9x9 b \<Longrightarrow> r < 9 \<Longrightarrow> c < 9 \<Longrightarrow> r' < 9 \<Longrightarrow> c' < 9 \<Longrightarrow>
   upd b r c v ! r' ! c' = (if r' = r \<and> c' = c then v else b ! r' ! c')"
  by (cases "r' = r") (auto simp: upd_def is9x9_def)

lemma board_eqI:
  assumes "is9x9 a" "is9x9 b" "\<And>r c. r < 9 \<Longrightarrow> c < 9 \<Longrightarrow> a ! r ! c = b ! r ! c"
  shows "a = b"
proof (rule nth_equalityI)
  show "length a = length b" using assms by (simp add: is9x9_def)
next
  fix i assume i: "i < length a"
  then have i9: "i < 9" using assms by (simp add: is9x9_def)
  show "a ! i = b ! i"
    by (rule nth_equalityI) (use assms i9 in \<open>auto simp: is9x9_row\<close>)
qed

lemma upd_upd_same:
  "is9x9 b \<Longrightarrow> r < 9 \<Longrightarrow> c < 9 \<Longrightarrow> upd (upd b r c v) r c w = upd b r c w"
  by (rule board_eqI) (simp_all add: is9x9_upd upd_at)

lemma upd_id:
  "is9x9 b \<Longrightarrow> r < 9 \<Longrightarrow> c < 9 \<Longrightarrow> b ! r ! c = v \<Longrightarrow> upd b r c v = b"
  by (rule board_eqI) (auto simp add: is9x9_upd upd_at)

lemma column_of_nat:
  "\<forall>row \<in> set b. c < length row \<Longrightarrow> column_of b (int c) = Inr (map (\<lambda>row. row ! c) b)"
  by (induction b) (simp_all add: py_getitem_nat)

lemma py_slice_box:
  "length row = 9 \<Longrightarrow> k < 3 \<Longrightarrow> py_slice row (int k * 3) (int k * 3 + 3) = take 3 (drop (k * 3) row)"
  by (simp add: py_slice_def py_clamp_def Let_def nat_mult_distrib)

lemma box_start: "int c div 3 * 3 = int (c div 3 * 3)"
  by (simp add: zdiv_int)

lemma get_values_in_square_nat:
  assumes "is9x9 b" "r < 9" "c < 9"
  shows "get_values_in_square b (int r) (int c) =
         Inr (take 3 (drop (c div 3 * 3) (b ! (r div 3 * 3)))
              @ take 3 (drop (c div 3 * 3) (b ! (r div 3 * 3 + 1)))
              @ take 3 (drop (c div 3 * 3) (b ! (r div 3 * 3 + 2))))"
proof -
  have k: "c div 3 < 3" using assms by simp
  have r0: "r div 3 * 3 + 2 < 9" using assms(2) by presburger
  have g: "\<And>i. i < 3 \<Longrightarrow> py_getitem b (int (r div 3 * 3) + int i) = Inr (b ! (r div 3 * 3 + i))"
  proof -
    fix i :: nat assume "i < 3"
    then have "r div 3 * 3 + i < length b" using assms r0 by (simp add: is9x9_def)
    from py_getitem_nat [OF this] show "py_getitem b (int (r div 3 * 3) + int i) = Inr (b ! (r div 3 * 3 + i))"
      by simp
  qed
  have l: "\<And>i. i < 3 \<Longrightarrow> length (b ! (r div 3 * 3 + i)) = 9"
    using assms r0 by (simp add: is9x9_row)
  show ?thesis
    unfolding get_values_in_square_def Let_def box_start
    using g [of 0] g [of 1] g [of 2] l [of 0] l [of 1] l [of 2]
    by (simp add: py_slice_box [OF _ k])
qed

lemma set_take_drop:
  assumes "m + n \<le> length xs"
  shows "set (take n (drop m xs)) = {xs ! j | j. m \<le> j \<and> j < m + n}"
proof (intro set_eqI iffI)
  fix v assume "v \<in> set (take n (drop m xs))"
  then obtain i where i: "i < length (take n (drop m xs))" "take n (drop m xs) ! i = v"
    by (auto simp: in_set_conv_nth)
  then have "i < n" "xs ! (m + i) = v" using assms by auto
  then show "v \<in> {xs ! j | j. m \<le> j \<and> j < m + n}"
    by (intro CollectI exI [of _ "m + i"]) auto
next
  fix v assume "v \<in> {xs ! j | j. m \<le> j \<and> j < m + n}"
  then obtain j where j: "m \<le> j" "j < m + n" "v = xs ! j" by auto
  then have "j - m < length (take n (drop m xs))" "take n (drop m xs) ! (j - m) = v"
    using assms by auto
  then show "v \<in> set (take n (drop m xs))" using nth_mem by blast
qed

lemma if_Inr_not: "(if P then Inr False else Inr True) = Inr (\<not> P)"
  by simp

lemma is_valid_entry_iff:
  assumes "is9x9 b" "r < 9" "c < 9"
  shows "is_valid_entry b (int r) (int c) v =
         Inr (\<not> (\<exists>r'<9. \<exists>c'<9. related r c r' c' \<and> b ! r' ! c' = v))"
proof -
  let ?y = "r div 3 * 3" and ?x = "c div 3 * 3"
  have col: "column_of b (int c) = Inr (map (\<lambda>row. row ! c) b)"
    using assms by (intro column_of_nat) (simp add: is9x9_def)
  have row: "py_getitem b (int r) = Inr (b ! r)"
    using assms by (simp add: py_getitem_nat is9x9_def)
  note sq = get_values_in_square_nat [OF assms]
  have x: "?x + 3 \<le> 9" using assms(3) by presburger
  have y: "?y + 2 < 9" using assms(2) by presburger
  have lenrow: "\<And>i. i < 9 \<Longrightarrow> length (b ! i) = 9" using assms by (simp add: is9x9_row)
  have "set b = {b ! r' | r'. r' < 9}"
    using assms by (simp add: is9x9_def set_conv_nth)
  then have scol: "v \<in> set (map (\<lambda>row. row ! c) b) \<longleftrightarrow> (\<exists>r'<9. b ! r' ! c = v)"
    by auto
  have srow: "v \<in> set (b ! r) \<longleftrightarrow> (\<exists>c'<9. b ! r ! c' = v)"
    using lenrow [OF assms(2)] by (auto simp: in_set_conv_nth)
  have sbox: "v \<in> set (take 3 (drop ?x (b ! (?y + i)))) \<longleftrightarrow>
              (\<exists>j. ?x \<le> j \<and> j < ?x + 3 \<and> b ! (?y + i) ! j = v)" if "i < 3" for i
  proof -
    have "?x + 3 \<le> length (b ! (?y + i))" using x y lenrow [of "?y + i"] that by simp
    from set_take_drop [OF this] show ?thesis by auto
  qed
  have "v \<in> set (map (\<lambda>row. row ! c) b @ b ! r @ take 3 (drop ?x (b ! ?y))
              @ take 3 (drop ?x (b ! (?y + 1))) @ take 3 (drop ?x (b ! (?y + 2))))
        \<longleftrightarrow> (\<exists>r'<9. \<exists>c'<9. related r c r' c' \<and> b ! r' ! c' = v)" (is "?L \<longleftrightarrow> ?R")
  proof
    assume ?L
    then have "(\<exists>r'<9. b ! r' ! c = v) \<or> (\<exists>c'<9. b ! r ! c' = v)
        \<or> v \<in> set (take 3 (drop ?x (b ! (?y + 0))))
        \<or> v \<in> set (take 3 (drop ?x (b ! (?y + 1))))
        \<or> v \<in> set (take 3 (drop ?x (b ! (?y + 2))))"
      using scol srow by (simp only: set_append Un_iff add_0_right)
    then consider "\<exists>r'<9. b ! r' ! c = v" | "\<exists>c'<9. b ! r ! c' = v"
      | i where "i < 3" "\<exists>j. ?x \<le> j \<and> j < ?x + 3 \<and> b ! (?y + i) ! j = v"
    proof (elim disjE)
      assume m: "v \<in> set (take 3 (drop ?x (b ! (?y + 0))))"
      have i: "(0::nat) < 3" by simp
      from m sbox [OF i] show ?thesis using that(3) [OF i] by blast
    next
      assume m: "v \<in> set (take 3 (drop ?x (b ! (?y + 1))))"
      have i: "(1::nat) < 3" by simp
      from m sbox [OF i] show ?thesis using that(3) [OF i] by blast
    next
      assume m: "v \<in> set (take 3 (drop ?x (b ! (?y + 2))))"
      have i: "(2::nat) < 3" by simp
      from m sbox [OF i] show ?thesis using that(3) [OF i] by blast
    next
      assume "\<exists>r'<9. b ! r' ! c = v" then show ?thesis by (rule that(1))
    next
      assume "\<exists>c'<9. b ! r ! c' = v" then show ?thesis by (rule that(2))
    qed
    then show ?R
    proof cases
      case 1 then show ?thesis using assms unfolding related_def by blast
    next
      case 2 then show ?thesis using assms unfolding related_def by blast
    next
      case 3
      then obtain j where j: "?x \<le> j" "j < ?x + 3" "b ! (?y + i) ! j = v" by auto
      have "?y + i < 9" "j < 9" using 3(1) y x j by auto
      moreover have "(?y + i) div 3 = r div 3" using 3(1) by simp
      moreover have "j div 3 = c div 3" using j(1,2) by presburger
      ultimately show ?thesis using j(3) unfolding related_def by blast
    qed
  next
    assume ?R
    then obtain r' c' where rc: "r' < 9" "c' < 9" "related r c r' c'" "b ! r' ! c' = v" by auto
    from rc(3) consider "c' = c" | "r' = r" | "r' div 3 = r div 3" "c' div 3 = c div 3"
      unfolding related_def by auto
    then show ?L
    proof cases
      case 1 then show ?thesis using rc scol by auto
    next
      case 2 then show ?thesis using rc srow by auto
    next
      case 3
      have "r' = ?y + (r' - ?y)" "r' - ?y < 3" using 3(1) by presburger+
      then obtain i where i: "i < 3" "r' = ?y + i" by blast
      have "?x \<le> c' \<and> c' < ?x + 3" using 3(2) by presburger
      then have m: "v \<in> set (take 3 (drop ?x (b ! (?y + i))))"
        using sbox [OF i(1)] rc(4) i(2) by auto
      from i(1) consider "i = 0" | "i = 1" | "i = 2" by linarith
      then show ?thesis using m by cases auto
    qed
  qed
  then have mem: "(v \<in> set (map (\<lambda>row. row ! c) b @ b ! r @ take 3 (drop ?x (b ! ?y))
              @ take 3 (drop ?x (b ! (?y + 1))) @ take 3 (drop ?x (b ! (?y + 2)))))
        = (\<exists>r'<9. \<exists>c'<9. related r c r' c' \<and> b ! r' ! c' = v)" .
  show ?thesis
    unfolding is_valid_entry_def col row sq sum.case mem by (rule if_Inr_not)
qed

lemma get_empty_row_spec:
  assumes "length r = 9" "\<forall>x \<in> set xs. 0 \<le> x \<and> x < 9"
  shows "(get_empty_row r e xs = Inr None \<and> (\<forall>x \<in> set xs. r ! nat x \<noteq> e))
       \<or> (\<exists>x \<in> set xs. get_empty_row r e xs = Inr (Some x) \<and> r ! nat x = e)"
  using assms(2)
proof (induction xs)
  case Nil
  then show ?case by simp
next
  case (Cons x xs)
  then have x: "0 \<le> x" "x < 9" by auto
  then have g: "py_getitem r x = Inr (r ! nat x)"
    using assms(1) by (simp add: py_getitem_def)
  show ?case
  proof (cases "r ! nat x = e")
    case True
    then show ?thesis using g by simp
  next
    case False
    then show ?thesis using g Cons by auto
  qed
qed

lemma get_empty_rows_spec:
  assumes "is9x9 b" "\<forall>y \<in> set ys. 0 \<le> y \<and> y < 9"
  shows "(get_empty_rows b e ys = Inr None \<and> (\<forall>y \<in> set ys. \<forall>c<9. b ! nat y ! c \<noteq> e))
       \<or> (\<exists>y \<in> set ys. \<exists>c<9. get_empty_rows b e ys = Inr (Some (y, int c)) \<and> b ! nat y ! c = e)"
  using assms(2)
proof (induction ys)
  case Nil
  then show ?case by simp
next
  case (Cons y ys)
  then have y: "0 \<le> y" "y < 9" by auto
  then have g: "py_getitem b y = Inr (b ! nat y)"
    using assms(1) by (simp add: py_getitem_def is9x9_def)
  have len: "length (b ! nat y) = 9"
    using assms(1) y by (simp add: is9x9_row)
  have xs: "\<forall>x \<in> set [0..8]. 0 \<le> x \<and> x < (9::int)" by simp
  from get_empty_row_spec [OF len xs, of e]
  show ?case
  proof (elim disjE conjE bexE)
    assume a: "get_empty_row (b ! nat y) e [0..8] = Inr None"
      and n: "\<forall>x \<in> set [0..8]. b ! nat y ! nat x \<noteq> e"
    have "\<forall>c<9. b ! nat y ! c \<noteq> e"
    proof (intro allI impI)
      fix c :: nat assume "c < 9"
      then have "int c \<in> set [0..8]" by simp
      with n have "b ! nat y ! nat (int c) \<noteq> e" by blast
      then show "b ! nat y ! c \<noteq> e" by simp
    qed
    then show ?thesis using a g Cons by auto
  next
    fix x assume x: "x \<in> set [0..8]"
      and a: "get_empty_row (b ! nat y) e [0..8] = Inr (Some x)"
      and v: "b ! nat y ! nat x = e"
    have "nat x < 9" "int (nat x) = x" using x by auto
    then show ?thesis using a g v by auto
  qed
qed

lemma get_empty_cases:
  assumes "is9x9 b"
  obtains (full) "get_empty b e = Inr None" "full_board b e"
  | (cell) r c where "r < 9" "c < 9" "get_empty b e = Inr (Some (int r, int c))" "b ! r ! c = e"
proof -
  have ys: "\<forall>y \<in> set [0..8]. 0 \<le> y \<and> y < (9::int)" by simp
  from get_empty_rows_spec [OF assms ys, of e]
  show ?thesis
  proof (elim disjE conjE bexE exE)
    assume a: "get_empty_rows b e [0..8] = Inr None"
      and n: "\<forall>y \<in> set [0..8]. \<forall>c<9. b ! nat y ! c \<noteq> e"
    have "full_board b e"
      unfolding full_board_def
    proof (intro allI impI)
      fix r c :: nat assume "r < 9" "c < 9"
      then have "int r \<in> set [0..8]" by simp
      with n \<open>c < 9\<close> have "b ! nat (int r) ! c \<noteq> e" by blast
      then show "b ! r ! c \<noteq> e" by simp
    qed
    then show ?thesis using a full by (simp add: get_empty_def)
  next
    fix y c assume y: "y \<in> set [0..8]" and c: "c < 9"
      and a: "get_empty_rows b e [0..8] = Inr (Some (y, int c))"
      and v: "b ! nat y ! c = e"
    have "nat y < 9" "int (nat y) = y" using y by auto
    then show ?thesis using cell [of "nat y" c] a c v by (simp add: get_empty_def)
  qed
qed

lemma count_row_update:
  "i < length xs \<Longrightarrow>
   length (filter P (xs[i := v])) + of_bool (P (xs ! i)) = length (filter P xs) + of_bool (P v)"
proof (induction xs arbitrary: i)
  case Nil
  then show ?case by simp
next
  case (Cons x xs)
  then show ?case by (cases i) auto
qed

lemma count_concat_update:
  "r < length b \<Longrightarrow> c < length (b ! r) \<Longrightarrow>
   length (filter P (concat (b[r := (b ! r)[c := v]]))) + of_bool (P (b ! r ! c))
   = length (filter P (concat b)) + of_bool (P v)"
proof (induction b arbitrary: r)
  case Nil
  then show ?case by simp
next
  case (Cons row rows)
  show ?case
  proof (cases r)
    case 0
    then show ?thesis using Cons.prems count_row_update [of c row P v] by simp
  next
    case (Suc r')
    then show ?thesis using Cons.prems Cons.IH [of r'] by simp
  qed
qed

lemma count_empty_upd:
  assumes "is9x9 b" "r < 9" "c < 9"
  shows "count_empty (upd b r c v) e + of_bool (b ! r ! c = e) = count_empty b e + of_bool (v = e)"
  unfolding count_empty_def upd_def
  using count_concat_update [of r b c "\<lambda>v. v = e" v] assms
  by (simp add: is9x9_len is9x9_row)

lemma count_empty_fill:
  assumes "is9x9 b" "r < 9" "c < 9" "b ! r ! c = e" "v \<noteq> e"
  shows "Suc (count_empty (upd b r c v) e) = count_empty b e"
  using count_empty_upd [OF assms(1-3), of v e] assms(4,5) by simp

lemma count_empty_clear:
  assumes "is9x9 b" "r < 9" "c < 9" "b ! r ! c \<noteq> e"
  shows "count_empty (upd b r c e) e = Suc (count_empty b e)"
  using count_empty_upd [OF assms(1-3), of e e] assms(4) by simp

lemma full_board_count:
  assumes "is9x9 b"
  shows "full_board b e \<longleftrightarrow> count_empty b e = 0"
proof -
  have "count_empty b e = 0 \<longleftrightarrow> (\<forall>row \<in> set b. e \<notin> set row)"
    unfolding count_empty_def by (auto simp: filter_empty_conv)
  also have "\<dots> \<longleftrightarrow> (\<forall>r<9. e \<notin> set (b ! r))"
    using assms by (auto simp: is9x9_def all_set_conv_all_nth)
  also have "\<dots> \<longleftrightarrow> (\<forall>r<9. \<forall>c<9. b ! r ! c \<noteq> e)"
  proof -
    have "\<And>r. r < 9 \<Longrightarrow> e \<notin> set (b ! r) \<longleftrightarrow> (\<forall>c<9. b ! r ! c \<noteq> e)"
      using is9x9_row [OF assms] by (auto simp: in_set_conv_nth)
    then show ?thesis by auto
  qed
  finally show ?thesis by (simp add: full_board_def)
qed

lemma related_refl: "related r c r c"
  by (simp add: related_def)

lemma related_sym: "related r c r' c' \<Longrightarrow> related r' c' r c"
  by (auto simp: related_def)



lemma legal_place:
  assumes b: "is9x9 b" "r < 9" "c < 9" "b ! r ! c = e"
    and ok: "\<not> (\<exists>r'<9. \<exists>c'<9. related r c r' c' \<and> b ! r' ! c' = v)"
    and leg: "legal b e"
  shows "legal (upd b r c v) e"
  unfolding legal_def
proof (intro allI impI, elim conjE)
  fix p q p' q'
  assume bounds: "p < 9" "q < 9" "p' < 9" "q' < 9"
    and rel: "related p q p' q'" and ne: "(p', q') \<noteq> (p, q)"
    and filled: "upd b r c v ! p ! q \<noteq> e"
  show "upd b r c v ! p' ! q' \<noteq> upd b r c v ! p ! q"
  proof (cases "p = r \<and> q = c")
    case True
    then have "\<not> (p' = r \<and> q' = c)" using ne by auto
    then have "upd b r c v ! p' ! q' = b ! p' ! q'"
      using b bounds by (auto simp: upd_at)
    moreover have "upd b r c v ! p ! q = v"
      using True b by (simp add: upd_at)
    moreover have "b ! p' ! q' \<noteq> v"
      using ok bounds rel True by blast
    ultimately show ?thesis by simp
  next
    case False
    then have old: "upd b r c v ! p ! q = b ! p ! q"
      using b bounds by (auto simp: upd_at)
    show ?thesis
    proof (cases "p' = r \<and> q' = c")
      case True
      then have "upd b r c v ! p' ! q' = v" using b by (simp add: upd_at)
      moreover have "b ! p ! q \<noteq> v"
        using ok bounds related_sym [OF rel] True by blast
      ultimately show ?thesis using old by simp
    next
      case False
      then have "upd b r c v ! p' ! q' = b ! p' ! q'"
        using b bounds by (auto simp: upd_at)
      moreover have "b ! p' ! q' \<noteq> b ! p ! q"
        using leg bounds rel ne filled old unfolding legal_def by metis
      ultimately show ?thesis using old by simp
    qed
  qed
qed

lemma fill_result_place:
  assumes b: "is9x9 b" "r < 9" "c < 9" "b ! r ! c = e"
    and ok: "\<not> (\<exists>r'<9. \<exists>c'<9. related r c r' c' \<and> b ! r' ! c' = v)"
    and res: "fill_result (upd b r c v) e True b'"
  shows "fill_result b e True b'"
proof -
  from res have b': "is9x9 b'" "full_board b' e" "extends (upd b r c v) b' e"
    "legal (upd b r c v) e \<longrightarrow> legal b' e"
    by (simp_all add: fill_result_def)
  have "extends b b' e"
    unfolding extends_def
  proof (intro allI impI)
    fix p q assume pq: "p < 9" "q < 9" "b ! p ! q \<noteq> e"
    then have "\<not> (p = r \<and> q = c)" using b(4) by auto
    then have "upd b r c v ! p ! q = b ! p ! q" using b pq by (auto simp: upd_at)
    then show "b' ! p ! q = b ! p ! q"
      using b'(3) pq unfolding extends_def by metis
  qed
  moreover have "legal b e \<longrightarrow> legal b' e"
    using legal_place [OF b ok] b'(4) by blast
  ultimately show ?thesis using b'(1,2) by (simp add: fill_result_def)
qed

lemma fill_try_spec:
  assumes FB: "\<And>b. is9x9 b \<Longrightarrow> count_empty b e < n \<Longrightarrow>
                 \<exists>ok b'. fill_board_fuel n b e = Some (Inr (ok, b')) \<and> fill_result b e ok b'"
    and b: "is9x9 b" "r < 9" "c < 9" "b ! r ! c = e" "count_empty b e \<le> n"
  shows "\<exists>ok b'. fill_try n b e (int r) (int c) vs = Some (Inr (ok, b')) \<and> fill_result b e ok b'"
proof (induction vs)
  case Nil
  show ?case by (intro exI [of _ False] exI [of _ b]) (simp add: fill_result_def)
next
  case (Cons v vs)
  define ok where "ok \<longleftrightarrow> \<not> (\<exists>r'<9. \<exists>c'<9. related r c r' c' \<and> b ! r' ! c' = IntV v)"
  have ve: "is_valid_entry b (int r) (int c) (IntV v) = Inr ok"
    unfolding ok_def using b(1-3) by (rule is_valid_entry_iff)
  show ?case
  proof (cases ok)
    case False
    then show ?thesis using ve Cons.IH by simp
  next
    case True
    then have free: "\<not> (\<exists>r'<9. \<exists>c'<9. related r c r' c' \<and> b ! r' ! c' = IntV v)"
      by (simp add: ok_def)
    let ?b1 = "upd b r c (IntV v)"
    have ne: "IntV v \<noteq> e" using free b related_refl [of r c] by blast
    have b1: "is9x9 ?b1" using b by (simp add: is9x9_upd)
    have cnt: "count_empty ?b1 e < n"
      using count_empty_fill [OF b(1-4) ne] b(5) by simp
    from FB [OF b1 cnt] obtain ok' b2 where
      r2: "fill_board_fuel n ?b1 e = Some (Inr (ok', b2))" "fill_result ?b1 e ok' b2" by blast
    have sc: "set_cell b (int r) (int c) (IntV v) = Inr ?b1"
      using b by (simp add: set_cell_nat)
    show ?thesis
    proof (cases ok')
      case True
      have "fill_result b e True b2"
        using fill_result_place [OF b(1-4) free] r2(2) True by simp
      then show ?thesis using ve \<open>ok\<close> sc r2(1) True by auto
    next
      case False
      then have "b2 = ?b1" using r2(2) by (simp add: fill_result_def)
      moreover have "upd ?b1 r c e = b"
        using b by (simp add: upd_upd_same upd_id)
      ultimately have "set_cell b2 (int r) (int c) e = Inr b"
        using b1 b by (simp add: set_cell_nat)
      then show ?thesis using ve \<open>ok\<close> sc r2(1) False Cons.IH by simp
    qed
  qed
qed

lemma fill_board_fuel_spec:
  "is9x9 b \<Longrightarrow> count_empty b e < n \<Longrightarrow>
   \<exists>ok b'. fill_board_fuel n b e = Some (Inr (ok, b')) \<and> fill_result b e ok b'"
proof (induction n arbitrary: b)
  case 0
  then show ?case by simp
next
  case (Suc n)
  show ?case
  proof (rule get_empty_cases [OF Suc.prems(1), of e])
    assume full: "get_empty b e = Inr None" "full_board b e"
    have "extends b b e" by (simp add: extends_def)
    then have "fill_result b e True b"
      using full Suc.prems(1) by (simp add: fill_result_def)
    then show ?thesis using full by auto
  next
    fix r c assume cell: "r < 9" "c < 9" "get_empty b e = Inr (Some (int r, int c))" "b ! r ! c = e"
    have "count_empty b e \<le> n" using Suc.prems(2) by simp
    from fill_try_spec [OF Suc.IH Suc.prems(1) cell(1,2,4) this, of "[1..9]"]
    show ?thesis using cell(3) by simp
  qed
qed



lemma extends_place:
  assumes "is9x9 b" "r < 9" "c < 9" "extends b s e" "s ! r ! c = v"
  shows "extends (upd b r c v) s e"
  unfolding extends_def
proof (intro allI impI)
  fix p q assume pq: "p < 9" "q < 9" "upd b r c v ! p ! q \<noteq> e"
  show "s ! p ! q = upd b r c v ! p ! q"
  proof (cases "p = r \<and> q = c")
    case True
    then show ?thesis using assms by (simp add: upd_at)
  next
    case False
    then have "upd b r c v ! p ! q = b ! p ! q" using assms pq by (auto simp: upd_at)
    then show ?thesis using assms(4) pq unfolding extends_def by metis
  qed
qed

lemma solution_not_empty:
  "solution s e \<Longrightarrow> \<not> is_digit e \<Longrightarrow> r < 9 \<Longrightarrow> c < 9 \<Longrightarrow> s ! r ! c \<noteq> e"
  unfolding solution_def by metis

lemma solution_blocks:
  assumes s: "solution s e" "\<not> is_digit e"
    and b: "extends b s e" "r < 9" "c < 9" "b ! r ! c = e"
    and hit: "r' < 9" "c' < 9" "related r c r' c'" "b ! r' ! c' = v"
  shows "s ! r ! c \<noteq> v"
proof
  assume eq: "s ! r ! c = v"
  then have ve: "v \<noteq> e" using solution_not_empty [OF s b(2,3)] by simp
  then have "s ! r' ! c' = v" using b(1) hit unfolding extends_def by metis
  moreover have "(r', c') \<noteq> (r, c)" using hit(4) b(4) ve by auto
  moreover have "legal s e" using s(1) by (simp add: solution_def)
  ultimately show False
    using eq ve hit(1-3) b(2,3) unfolding legal_def by metis
qed

lemma fill_try_complete:
  assumes FBc: "\<And>b. is9x9 b \<Longrightarrow> count_empty b e < n \<Longrightarrow> extends b s e \<Longrightarrow>
                 \<exists>b'. fill_board_fuel n b e = Some (Inr (True, b'))"
    and s: "solution s e" "\<not> is_digit e"
    and b: "is9x9 b" "r < 9" "c < 9" "b ! r ! c = e" "count_empty b e \<le> n" "extends b s e"
    and cand: "\<exists>d \<in> set vs. s ! r ! c = IntV d"
  shows "\<exists>b'. fill_try n b e (int r) (int c) vs = Some (Inr (True, b'))"
  using cand
proof (induction vs)
  case Nil
  then show ?case by simp
next
  case (Cons v vs)
  define ok where "ok \<longleftrightarrow> \<not> (\<exists>r'<9. \<exists>c'<9. related r c r' c' \<and> b ! r' ! c' = IntV v)"
  have ve: "is_valid_entry b (int r) (int c) (IntV v) = Inr ok"
    unfolding ok_def using b(1-3) by (rule is_valid_entry_iff)
  show ?case
  proof (cases ok)
    case False
    then obtain r' c' where "r' < 9" "c' < 9" "related r c r' c'" "b ! r' ! c' = IntV v"
      by (auto simp: ok_def)
    from solution_blocks [OF s b(6,2,3,4) this] have "s ! r ! c \<noteq> IntV v" .
    then have "\<exists>d \<in> set vs. s ! r ! c = IntV d" using Cons.prems by auto
    from Cons.IH [OF this] show ?thesis using ve False by simp
  next
    case True
    then have free: "\<not> (\<exists>r'<9. \<exists>c'<9. related r c r' c' \<and> b ! r' ! c' = IntV v)"
      by (simp add: ok_def)
    let ?b1 = "upd b r c (IntV v)"
    have ne: "IntV v \<noteq> e" using free b related_refl [of r c] by blast
    have b1: "is9x9 ?b1" using b by (simp add: is9x9_upd)
    have cnt: "count_empty ?b1 e < n"
      using count_empty_fill [OF b(1-4) ne] b(5) by simp
    from fill_board_fuel_spec [OF b1 cnt] obtain ok' b2 where
      r2: "fill_board_fuel n ?b1 e = Some (Inr (ok', b2))" "fill_result ?b1 e ok' b2" by blast
    have sc: "set_cell b (int r) (int c) (IntV v) = Inr ?b1"
      using b by (simp add: set_cell_nat)
    show ?thesis
    proof (cases ok')
      case True
      then show ?thesis using ve \<open>ok\<close> sc r2(1) by simp
    next
      case False
      have "s ! r ! c \<noteq> IntV v"
      proof
        assume "s ! r ! c = IntV v"
        from extends_place [OF b(1-3,6) this] FBc [OF b1 cnt]
        show False using r2(1) False by auto
      qed
      then have more: "\<exists>d \<in> set vs. s ! r ! c = IntV d" using Cons.prems by auto
      have "b2 = ?b1" using r2(2) False by (simp add: fill_result_def)
      moreover have "upd ?b1 r c e = b"
        using b by (simp add: upd_upd_same upd_id)
      ultimately have "set_cell b2 (int r) (int c) e = Inr b"
        using b1 b by (simp add: set_cell_nat)
      then show ?thesis using ve \<open>ok\<close> sc r2(1) False Cons.IH [OF more] by simp
    qed
  qed
qed

lemma digit_candidate: "is_digit v \<Longrightarrow> \<exists>d \<in> set [1..9]. v = IntV d"
  by (auto simp: is_digit_def)

lemma fill_board_fuel_complete:
  assumes s: "solution s e" "\<not> is_digit e"
  shows "is9x9 b \<Longrightarrow> count_empty b e < n \<Longrightarrow> extends b s e \<Longrightarrow>
         \<exists>b'. fill_board_fuel n b e = Some (Inr (True, b'))"
proof (induction n arbitrary: b)
  case 0
  then show ?case by simp
next
  case (Suc n)
  show ?case
  proof (rule get_empty_cases [OF Suc.prems(1), of e])
    assume "get_empty b e = Inr None" "full_board b e"
    then show ?thesis by simp
  next
    fix r c assume cell: "r < 9" "c < 9" "get_empty b e = Inr (Some (int r, int c))" "b ! r ! c = e"
    have le: "count_empty b e \<le> n" using Suc.prems(2) by simp
    have "is_digit (s ! r ! c)" using s(1) cell(1,2) by (simp add: solution_def)
    then have cand: "\<exists>d \<in> set [1..9]. s ! r ! c = IntV d" by (rule digit_candidate)
    from fill_try_complete [OF Suc.IH s Suc.prems(1) cell(1,2,4) le Suc.prems(3) cand]
    show ?thesis using cell(3) by simp
  qed
qed

lemma count_try_spec:
  assumes CS: "\<And>b. is9x9 b \<Longrightarrow> count_empty b e < n \<Longrightarrow>
                 \<exists>k. count_solutions_fuel n b lim e = Some (Inr (k, b)) \<and> 0 \<le> k
                     \<and> k \<le> 1 + int (count_empty b e) * max 0 (lim - 1)"
    and b: "is9x9 b" "r < 9" "c < 9" "b ! r ! c = e" "count_empty b e \<le> n"
  shows "0 \<le> cnt \<Longrightarrow> cnt \<le> max 0 (lim - 1) \<Longrightarrow>
         \<exists>k. count_try n b lim e (int r) (int c) vs cnt = Some (Inr (k, b)) \<and> cnt \<le> k
             \<and> k \<le> 1 + int (count_empty b e) * max 0 (lim - 1)"
proof (induction vs arbitrary: cnt)
  case Nil
  have "1 \<le> count_empty b e"
    using b(1-4) full_board_count [OF b(1), of e] unfolding full_board_def
    by (metis One_nat_def Suc_leI neq0_conv)
  then have "max 0 (lim - 1) \<le> int (count_empty b e) * max 0 (lim - 1)"
    by (simp add: mult_le_cancel_right1)
  then show ?case using Nil by simp
next
  case (Cons v vs)
  define ok where "ok \<longleftrightarrow> \<not> (\<exists>r'<9. \<exists>c'<9. related r c r' c' \<and> b ! r' ! c' = IntV v)"
  have ve: "is_valid_entry b (int r) (int c) (IntV v) = Inr ok"
    unfolding ok_def using b(1-3) by (rule is_valid_entry_iff)
  show ?case
  proof (cases ok)
    case False
    then show ?thesis using ve Cons.IH [OF Cons.prems] by simp
  next
    case True
    then have free: "\<not> (\<exists>r'<9. \<exists>c'<9. related r c r' c' \<and> b ! r' ! c' = IntV v)"
      by (simp add: ok_def)
    let ?b1 = "upd b r c (IntV v)"
    have ne: "IntV v \<noteq> e" using free b related_refl [of r c] by blast
    have b1: "is9x9 ?b1" using b by (simp add: is9x9_upd)
    have m: "Suc (count_empty ?b1 e) = count_empty b e"
      by (rule count_empty_fill [OF b(1-4) ne])
    then have cnt: "count_empty ?b1 e < n" using b(5) by simp
    from CS [OF b1 cnt] obtain k where
      k: "count_solutions_fuel n ?b1 lim e = Some (Inr (k, ?b1))" "0 \<le> k"
         "k \<le> 1 + int (count_empty ?b1 e) * max 0 (lim - 1)" by blast
    have sc: "set_cell b (int r) (int c) (IntV v) = Inr ?b1"
      using b by (simp add: set_cell_nat)
    have "upd ?b1 r c e = b"
      using b by (simp add: upd_upd_same upd_id)
    then have restore: "set_cell ?b1 (int r) (int c) e = Inr b"
      using b1 b by (simp add: set_cell_nat)
    have "int (count_empty b e) = int (count_empty ?b1 e) + 1" using m by simp
    then have "int (count_empty b e) * max 0 (lim - 1)
               = int (count_empty ?b1 e) * max 0 (lim - 1) + max 0 (lim - 1)"
      by (simp add: algebra_simps)
    then have bound: "cnt + k \<le> 1 + int (count_empty b e) * max 0 (lim - 1)"
      using k(3) Cons.prems(2) by linarith
    show ?thesis
    proof (cases "lim \<le> cnt + k")
      case True
      then show ?thesis using ve \<open>ok\<close> sc k(1,2) restore bound by simp
    next
      case False
      then have "0 \<le> cnt + k" "cnt + k \<le> max 0 (lim - 1)" using Cons.prems(1) k(2) by auto
      from Cons.IH [OF this] obtain k' where
        "count_try n b lim e (int r) (int c) vs (cnt + k) = Some (Inr (k', b))" "cnt + k \<le> k'"
        "k' \<le> 1 + int (count_empty b e) * max 0 (lim - 1)" by blast
      then show ?thesis using ve \<open>ok\<close> sc k(1,2) restore False by simp
    qed
  qed
qed

lemma count_solutions_fuel_spec:
  "is9x9 b \<Longrightarrow> count_empty b e < n \<Longrightarrow>
   \<exists>k. count_solutions_fuel n b lim e = Some (Inr (k, b)) \<and> 0 \<le> k
       \<and> k \<le> 1 + int (count_empty b e) * max 0 (lim - 1)"
proof (induction n arbitrary: b)
  case 0
  then show ?case by simp
next
  case (Suc n)
  show ?case
  proof (rule get_empty_cases [OF Suc.prems(1), of e])
    assume "get_empty b e = Inr None" "full_board b e"
    then show ?thesis by simp
  next
    fix r c assume cell: "r < 9" "c < 9" "get_empty b e = Inr (Some (int r, int c))" "b ! r ! c = e"
    have le: "count_empty b e \<le> n" using Suc.prems(2) by simp
    have z: "(0::int) \<le> 0" "(0::int) \<le> max 0 (lim - 1)" by simp_all
    from count_try_spec [OF Suc.IH Suc.prems(1) cell(1,2,4) le z, of "[1..9]"]
    show ?thesis using cell(3) by auto
  qed
qed

lemma valid_cells_legal:
  assumes "is9x9 b" "legal b e"
  shows "\<forall>p \<in> set ps. 0 \<le> fst p \<and> fst p < 9 \<and> 0 \<le> snd p \<and> snd p < 9 \<Longrightarrow>
         valid_cells b e ps = Inr (True, b)"
proof (induction ps)
  case Nil
  then show ?case by simp
next
  case (Cons p ps)
  obtain row col where p: "p = (row, col)" by (cases p)
  define r c where "r = nat row" and "c = nat col"
  have rc: "r < 9" "c < 9" "row = int r" "col = int c"
    using Cons.prems p by (auto simp: r_def c_def)
  have IH: "valid_cells b e ps = Inr (True, b)" using Cons by simp
  have g: "get_cell b (int r) (int c) = Inr (b ! r ! c)"
    using assms(1) rc by (simp add: get_cell_nat)
  show ?case
  proof (cases "b ! r ! c = e")
    case True
    then show ?thesis using p rc g IH by simp
  next
    case False
    let ?b1 = "upd b r c e"
    have b1: "is9x9 ?b1" using assms(1) by (rule is9x9_upd)
    have sc: "set_cell b (int r) (int c) e = Inr ?b1"
      using assms(1) rc by (simp add: set_cell_nat)
    have "\<not> (\<exists>r'<9. \<exists>c'<9. related r c r' c' \<and> ?b1 ! r' ! c' = b ! r ! c)"
    proof (intro notI, elim exE conjE)
      fix r' c' assume h: "r' < 9" "c' < 9" "related r c r' c'" "?b1 ! r' ! c' = b ! r ! c"
      show False
      proof (cases "r' = r \<and> c' = c")
        case True
        then show ?thesis using h(4) False assms(1) rc by (simp add: upd_at)
      next
        case other: False
        then have "?b1 ! r' ! c' = b ! r' ! c'" using assms(1) rc h by (auto simp: upd_at)
        moreover have "b ! r' ! c' \<noteq> b ! r ! c"
          using assms(2) rc(1,2) h(1-3) other False unfolding legal_def by blast
        ultimately show ?thesis using h(4) by simp
      qed
    qed
    then have ve: "is_valid_entry ?b1 (int r) (int c) (b ! r ! c) = Inr True"
      using is_valid_entry_iff [OF b1 rc(1,2), of "b ! r ! c"] by simp
    have "upd ?b1 r c (b ! r ! c) = b"
      using assms(1) rc by (simp add: upd_upd_same upd_id)
    then have restore: "set_cell ?b1 (int r) (int c) (b ! r ! c) = Inr b"
      using b1 rc by (simp add: set_cell_nat)
    show ?thesis using p rc(3,4) g False sc ve restore IH by simp
  qed
qed

lemma is_valid_board_legal:
  assumes "is9x9 b" "legal b e"
  shows "is_valid_board b e = Inr (True, b)"
proof -
  have "\<forall>p \<in> set (List.product [0..8] [0..8]). 0 \<le> fst p \<and> fst p < (9::int) \<and> 0 \<le> snd p \<and> snd p < (9::int)"
    by auto
  from valid_cells_legal [OF assms this] show ?thesis
    using assms(1) by (simp add: is_valid_board_def is9x9_def)
qed


lemma pattern_table:
  "\<forall>r \<in> set [0..<9]. \<forall>c \<in> set [0..<9]. \<forall>r' \<in> set [0..<9]. \<forall>c' \<in> set [0..<9].
     related r c r' c' \<and> (r', c') \<noteq> (r, c) \<longrightarrow> pattern_digit r' c' \<noteq> pattern_digit r c"
  by code_simp




lemma pattern_distinct:
  assumes "r < 9" "c < 9" "r' < 9" "c' < 9" "related r c r' c'" "(r', c') \<noteq> (r, c)"
  shows "pattern_digit r' c' \<noteq> pattern_digit r c"
proof -
  have "r \<in> set [0..<9]" "c \<in> set [0..<9]" "r' \<in> set [0..<9]" "c' \<in> set [0..<9]"
    using assms(1-4) by simp_all
  from pattern_table [rule_format, OF this] assms(5,6) show ?thesis by blast
qed

lemma pattern_digit_less: "pattern_digit r c < 9"
  by (simp add: pattern_digit_def)

lemma pattern_digit_row0: "c < 9 \<Longrightarrow> pattern_digit 0 c = c"
  by (simp add: pattern_digit_def)

lemma pattern_grid_at:
  "r < 9 \<Longrightarrow> c < 9 \<Longrightarrow> pattern_grid f ! r ! c = IntV (f (pattern_digit r c))"
  by (simp add: pattern_grid_def)

lemma is9x9_pattern_grid: "is9x9 (pattern_grid f)"
  by (auto simp: is9x9_def pattern_grid_def)

lemma solution_pattern_grid:
  assumes inj: "inj_on f {0..<9}" and rng: "\<forall>k<9. 1 \<le> f k \<and> f k \<le> 9"
  shows "solution (pattern_grid f) e"
  unfolding solution_def
proof (intro conjI allI impI)
  show "is9x9 (pattern_grid f)" by (rule is9x9_pattern_grid)
next
  fix r c :: nat assume "r < 9" "c < 9"
  then show "is_digit (pattern_grid f ! r ! c)"
    using rng pattern_digit_less [of r c] by (simp add: pattern_grid_at is_digit_def)
next
  show "legal (pattern_grid f) e"
    unfolding legal_def
  proof (intro allI impI, elim conjE)
    fix r c r' c' :: nat
    assume h: "r < 9" "c < 9" "r' < 9" "c' < 9" "related r c r' c'" "(r', c') \<noteq> (r, c)"
    from pattern_distinct [OF this] have "pattern_digit r' c' \<noteq> pattern_digit r c" .
    moreover have "pattern_digit r c \<in> {0..<9}" "pattern_digit r' c' \<in> {0..<9}"
      using pattern_digit_less [of r c] pattern_digit_less [of r' c'] by simp_all
    ultimately have "f (pattern_digit r' c') \<noteq> f (pattern_digit r c)"
      using inj_onD [OF inj] by blast
    then show "pattern_grid f ! r' ! c' \<noteq> pattern_grid f ! r ! c"
      using h by (simp add: pattern_grid_at)
  qed
qed

lemma perm_extend:
  fixes c1 c2 c3 :: nat and v1 v2 v3 :: int
  assumes c: "distinct [c1, c2, c3]" "c1 < 9" "c2 < 9" "c3 < 9"
    and v: "distinct [v1, v2, v3]" "1 \<le> v1 \<and> v1 \<le> 9" "1 \<le> v2 \<and> v2 \<le> 9" "1 \<le> v3 \<and> v3 \<le> 9"
  shows "\<exists>f. inj_on f {0..<9} \<and> (\<forall>k<9. 1 \<le> f k \<and> f k \<le> 9) \<and> f c1 = v1 \<and> f c2 = v2 \<and> f c3 = v3"
proof -
  define C V where "C = {c1, c2, c3}" and "V = {v1, v2, v3}"
  define A B where "A = {0..<9} - C" and "B = {1..9} - V"
  have "card C = 3" "card V = 3" using c(1) v(1) by (auto simp: C_def V_def)
  moreover have "C \<subseteq> {0..<9}" "V \<subseteq> {1..9}" using c v by (auto simp: C_def V_def)
  moreover have "finite C" "finite V" by (simp_all add: C_def V_def)
  ultimately have "card A = 6" "card B = 6"
    unfolding A_def B_def by (simp_all add: card_Diff_subset)
  then have "card A = card B" by simp
  moreover have "finite A" "finite B" by (simp_all add: A_def B_def)
  ultimately obtain g where g: "bij_betw g A B"
    using finite_same_card_bij by blast
  define f where "f k = (if k = c1 then v1 else if k = c2 then v2 else if k = c3 then v3 else g k)" for k
  have fc: "f c1 = v1" "f c2 = v2" "f c3 = v3" using c(1) by (simp_all add: f_def)
  have Ccases: "k = c1 \<or> k = c2 \<or> k = c3" if "k \<in> C" for k using that by (simp add: C_def)
  have fV: "f k \<in> V" if "k \<in> C" for k
    using Ccases [OF that] fc by (elim disjE) (simp_all add: V_def)
  have fg: "f k = g k" if "k \<notin> C" for k using that by (simp add: f_def C_def)
  have gB: "g k \<in> B" if "k \<in> A" for k
    using bij_betwE [OF g] that by blast
  have fB: "f k \<in> B" if "k < 9" "k \<notin> C" for k
  proof -
    have "k \<in> A" using that by (simp add: A_def)
    then show ?thesis using gB fg [OF that(2)] by simp
  qed
  have VB: "x \<in> V \<Longrightarrow> x \<in> B \<Longrightarrow> False" for x by (simp add: B_def)
  have ginj: "inj_on g A" using g by (rule bij_betw_imp_inj_on)
  have "inj_on f {0..<9}"
  proof (rule inj_onI)
    fix x y assume xy: "x \<in> {0..<9}" "y \<in> {0..<9}" "f x = f y"
    then have lt: "x < 9" "y < 9" by simp_all
    show "x = y"
    proof (cases "x \<in> C")
      case True
      show ?thesis
      proof (cases "y \<in> C")
        case yC: True
        show ?thesis using Ccases [OF True] Ccases [OF yC] xy(3) fc v(1)
          by (elim disjE) simp_all
      next
        case False
        show ?thesis using VB [OF fV [OF True]] fB [OF lt(2) False] xy(3) by simp
      qed
    next
      case False
      show ?thesis
      proof (cases "y \<in> C")
        case True
        show ?thesis using VB [OF fV [OF True]] fB [OF lt(1) False] xy(3) by simp
      next
        case yA: False
        have gg: "g x = g y" using fg [OF False] fg [OF yA] xy(3) by simp
        have "x \<in> A" "y \<in> A" using False yA lt by (simp_all add: A_def)
        then show ?thesis using inj_onD [OF ginj gg] by blast
      qed
    qed
  qed
  moreover have "\<forall>k<9. 1 \<le> f k \<and> f k \<le> 9"
  proof (intro allI impI)
    fix k :: nat assume k: "k < 9"
    show "1 \<le> f k \<and> f k \<le> 9"
    proof (cases "k \<in> C")
      case True
      show ?thesis using Ccases [OF True] v(2-4) fc by (elim disjE) simp_all
    next
      case False
      show ?thesis using fB [OF k False] by (simp add: B_def)
    qed
  qed
  ultimately show ?thesis using fc by blast
qed



lemma legal_extends:
  assumes "extends b s e" "legal s e"
  shows "legal b e"
  unfolding legal_def
proof (intro allI impI, elim conjE)
  fix r c r' c' :: nat
  assume h: "r < 9" "c < 9" "r' < 9" "c' < 9" "related r c r' c'" "(r', c') \<noteq> (r, c)"
    and ne: "b ! r ! c \<noteq> e"
  then have s: "s ! r ! c = b ! r ! c" using assms(1) unfolding extends_def by metis
  show "b ! r' ! c' \<noteq> b ! r ! c"
  proof (cases "b ! r' ! c' = e")
    case True
    then show ?thesis using ne by simp
  next
    case False
    then have "s ! r' ! c' = b ! r' ! c'" using assms(1) h unfolding extends_def by metis
    moreover have "s ! r' ! c' \<noteq> s ! r ! c"
      using assms(2) h ne s unfolding legal_def by metis
    ultimately show ?thesis using s by simp
  qed
qed

lemma is9x9_blank: "is9x9 (replicate 9 (replicate 9 e))"
  by (simp add: is9x9_def)

lemma blank_at: "r < 9 \<Longrightarrow> c < 9 \<Longrightarrow> replicate 9 (replicate 9 e) ! r ! c = e"
  by simp

lemma place_seeds3:
  assumes "k1 < 9" "k2 < 9" "k3 < 9" "is9x9 b"
  shows "place_seeds b (zip [int k1, int k2, int k3] [v1, v2, v3])
         = Inr (upd (upd (upd b 0 k1 (IntV v1)) 0 k2 (IntV v2)) 0 k3 (IntV v3))"
proof -
  have z: "(0::int) = int 0" by simp
  show ?thesis
    using assms
    by (simp add: set_cell_nat [of _ 0, simplified] is9x9_upd)
qed

lemma seeded_solution:
  assumes "seeds_ok cells vals" "\<not> is_digit e"
  shows "\<exists>b0 s. place_seeds (replicate 9 (replicate 9 e)) (zip cells vals) = Inr b0
               \<and> is9x9 b0 \<and> solution s e \<and> extends b0 s e"
proof -
  from assms(1) obtain x1 x2 x3 where cells: "cells = [x1, x2, x3]"
    unfolding seeds_ok_def by (auto simp: length_Suc_conv numeral_3_eq_3)
  from assms(1) obtain v1 v2 v3 where vals: "vals = [v1, v2, v3]"
    unfolding seeds_ok_def by (auto simp: length_Suc_conv numeral_3_eq_3)
  define k1 k2 k3 where "k1 = nat x1" and "k2 = nat x2" and "k3 = nat x3"
  have k: "k1 < 9" "k2 < 9" "k3 < 9" "x1 = int k1" "x2 = int k2" "x3 = int k3" "distinct [k1, k2, k3]"
    using assms(1) unfolding seeds_ok_def cells k1_def k2_def k3_def by auto
  have v: "distinct [v1, v2, v3]" "1 \<le> v1 \<and> v1 \<le> 9" "1 \<le> v2 \<and> v2 \<le> 9" "1 \<le> v3 \<and> v3 \<le> 9"
    using assms(1) unfolding seeds_ok_def vals by auto
  let ?E = "replicate 9 (replicate 9 e)"
  let ?b0 = "upd (upd (upd ?E 0 k1 (IntV v1)) 0 k2 (IntV v2)) 0 k3 (IntV v3)"
  have p: "place_seeds ?E (zip cells vals) = Inr ?b0"
    unfolding cells vals k(4-6) by (rule place_seeds3 [OF k(1-3) is9x9_blank])
  have b0: "is9x9 ?b0" by (simp add: is9x9_upd is9x9_blank)
  from perm_extend [OF k(7,1,2,3) v] obtain f where
    f: "inj_on f {0..<9}" "\<forall>k<9. 1 \<le> f k \<and> f k \<le> 9" "f k1 = v1" "f k2 = v2" "f k3 = v3"
    by blast
  have sol: "solution (pattern_grid f) e" by (rule solution_pattern_grid [OF f(1,2)])
  have "extends ?b0 (pattern_grid f) e"
    unfolding extends_def
  proof (intro allI impI)
    fix r c :: nat assume rc: "r < 9" "c < 9" and ne: "?b0 ! r ! c \<noteq> e"
    have at: "?b0 ! r ! c = (if r = 0 \<and> c = k3 then IntV v3 else if r = 0 \<and> c = k2 then IntV v2
                else if r = 0 \<and> c = k1 then IntV v1 else e)"
      using rc k(1-3) by (simp add: upd_at is9x9_upd is9x9_blank)
    show "pattern_grid f ! r ! c = ?b0 ! r ! c"
      using ne rc f(3-5) k(1-3) unfolding at
      by (auto simp: pattern_grid_at pattern_digit_row0 split: if_splits)
  qed
  then show ?thesis using p b0 sol by blast
qed

lemma generate_solved:
  assumes "seeds_ok cells vals" "\<not> is_digit e"
  shows "\<exists>b0 sol. place_seeds (replicate 9 (replicate 9 e)) (zip cells vals) = Inr b0
           \<and> fill_board b0 e = Some (Inr (True, sol))
           \<and> is9x9 sol \<and> full_board sol e \<and> legal sol e"
proof -
  from seeded_solution [OF assms] obtain b0 s where
    b0: "place_seeds (replicate 9 (replicate 9 e)) (zip cells vals) = Inr b0" "is9x9 b0"
      "solution s e" "extends b0 s e" by blast
  have lt: "count_empty b0 e < Suc (count_empty b0 e)" by simp
  from fill_board_fuel_complete [OF b0(3) assms(2) b0(2) lt b0(4)] obtain sol where
    sol: "fill_board b0 e = Some (Inr (True, sol))" by (auto simp: fill_board_def)
  from fill_board_fuel_spec [OF b0(2) lt] sol have "fill_result b0 e True sol"
    by (auto simp: fill_board_def)
  moreover have "legal b0 e" using legal_extends [OF b0(4)] b0(3) by (simp add: solution_def)
  ultimately have "is9x9 sol \<and> full_board sol e \<and> legal sol e"
    by (simp add: fill_result_def)
  then show ?thesis using b0(1) sol by blast
qed



lemma count_solutions_spec:
  assumes "is9x9 b"
  shows "\<exists>k. count_solutions b lim e = Some (Inr (k, b)) \<and> 0 \<le> k
             \<and> k \<le> 1 + int (count_empty b e) * max 0 (lim - 1)"
  unfolding count_solutions_def
  by (rule count_solutions_fuel_spec [OF assms]) simp

lemma draws_ok_nat:
  assumes "draws_ok draws"
  obtains r c where "r < 9" "c < 9" "draws i = (int r, int c)"
proof -
  have d: "0 \<le> fst (draws i)" "fst (draws i) \<le> 8" "0 \<le> snd (draws i)" "snd (draws i) \<le> 8"
    using assms by (simp_all add: draws_ok_def)
  have "nat (fst (draws i)) < 9" "nat (snd (draws i)) < 9"
    "draws i = (int (nat (fst (draws i))), int (nat (snd (draws i))))"
    using d by (simp_all add: prod_eq_iff)
  then show ?thesis by (rule that)
qed

lemma unique_body_step:
  assumes "is9x9 b" "draws_ok draws"
  shows "\<exists>b' em'. unique_body draws e (b, em, at) = Some (Inr (b', em', Suc at)) \<and> is9x9 b' \<and>
           ((b' = b \<and> em' = em) \<or>
            (\<exists>r<9. \<exists>c<9. b ! r ! c \<noteq> e \<and> b' = upd b r c e \<and> em' = em + 1
               \<and> count_solutions b' 2 e = Some (Inr (1, b'))))"
proof -
  from assms(2) obtain r c where rc: "r < 9" "c < 9" "draws at = (int r, int c)"
    by (rule draws_ok_nat)
  have g: "get_cell b (int r) (int c) = Inr (b ! r ! c)"
    using assms(1) rc by (simp add: get_cell_nat)
  show ?thesis
  proof (cases "b ! r ! c = e")
    case True
    then show ?thesis using rc(3) g assms(1) by (simp add: unique_body_def)
  next
    case False
    let ?b1 = "upd b r c e"
    have b1: "is9x9 ?b1" using assms(1) by (rule is9x9_upd)
    have sc: "set_cell b (int r) (int c) e = Inr ?b1"
      using assms(1) rc by (simp add: set_cell_nat)
    from count_solutions_spec [OF b1, of 2 e] obtain k where
      k: "count_solutions ?b1 2 e = Some (Inr (k, ?b1))" by blast
    show ?thesis
    proof (cases "k = 1")
      case True
      have "unique_body draws e (b, em, at) = Some (Inr (?b1, em + 1, Suc at))"
        using rc(3) g False sc k True by (simp add: unique_body_def)
      moreover have "\<exists>r<9. \<exists>c<9. b ! r ! c \<noteq> e \<and> ?b1 = upd b r c e \<and> em + 1 = em + 1
               \<and> count_solutions ?b1 2 e = Some (Inr (1, ?b1))"
        using rc(1,2) False k True by blast
      ultimately show ?thesis using b1 by blast
    next
      case k1: False
      have "upd ?b1 r c (b ! r ! c) = b"
        using assms(1) rc by (simp add: upd_upd_same upd_id)
      then have "set_cell ?b1 (int r) (int c) (b ! r ! c) = Inr b"
        using b1 rc by (simp add: set_cell_nat)
      then have "unique_body draws e (b, em, at) = Some (Inr (b, em, Suc at))"
        using rc(3) g False sc k k1 by (simp add: unique_body_def)
      then show ?thesis using assms(1) by blast
    qed
  qed
qed

lemma iterate_body_front:
  "iterate_body draws e (Suc n) s =
     (case unique_body draws e s of
        None \<Rightarrow> None
      | Some (Inl err) \<Rightarrow> Some (Inl err)
      | Some (Inr s') \<Rightarrow> iterate_body draws e n s')"
proof (induction n)
  case 0
  show ?case by (simp split: option.splits sum.splits)
next
  case (Suc n)
  have "iterate_body draws e (Suc (Suc n)) s =
        (case iterate_body draws e (Suc n) s of
           None \<Rightarrow> None
         | Some (Inl err) \<Rightarrow> Some (Inl err)
         | Some (Inr s') \<Rightarrow> unique_body draws e s')" by simp
  also have "\<dots> = (case unique_body draws e s of
        None \<Rightarrow> None
      | Some (Inl err) \<Rightarrow> Some (Inl err)
      | Some (Inr s') \<Rightarrow> iterate_body draws e (Suc n) s')"
    unfolding Suc.IH by (simp split: option.splits sum.splits)
  finally show ?case .
qed

lemma iterate_body_invariant:
  assumes d: "draws_ok draws" and b0: "is9x9 b0" "P b0 em0"
    and step: "\<And>b em r c. is9x9 b \<Longrightarrow> P b em \<Longrightarrow> r < 9 \<Longrightarrow> c < 9 \<Longrightarrow> b ! r ! c \<noteq> e \<Longrightarrow>
                 count_solutions (upd b r c e) 2 e = Some (Inr (1, upd b r c e)) \<Longrightarrow>
                 P (upd b r c e) (em + 1)"
  shows "\<exists>b em. iterate_body draws e n (b0, em0, at0) = Some (Inr (b, em, at0 + n)) \<and> is9x9 b \<and> P b em"
proof (induction n)
  case 0
  show ?case using b0 by simp
next
  case (Suc n)
  then obtain b em where
    it: "iterate_body draws e n (b0, em0, at0) = Some (Inr (b, em, at0 + n))" "is9x9 b" "P b em"
    by blast
  from unique_body_step [OF it(2) d, of e em "at0 + n"] obtain b' em' where
    st: "unique_body draws e (b, em, at0 + n) = Some (Inr (b', em', Suc (at0 + n)))" "is9x9 b'"
      "(b' = b \<and> em' = em) \<or>
       (\<exists>r<9. \<exists>c<9. b ! r ! c \<noteq> e \<and> b' = upd b r c e \<and> em' = em + 1
          \<and> count_solutions b' 2 e = Some (Inr (1, b')))" by blast
  have "P b' em'" using st(3) it(2,3) step by auto
  then show ?case using it(1) st(1,2) by simp
qed

lemma unique_loop_spec:
  assumes d: "draws_ok draws"
  shows "is9x9 (fst s) \<Longrightarrow>
    \<exists>n b' em'. unique_loop draws tot e s = Some (Inr (b', em', snd (snd s) + n))
      \<and> iterate_body draws e n s = Some (Inr (b', em', snd (snd s) + n))
      \<and> \<not> unique_cond tot (b', em', snd (snd s) + n)
      \<and> (\<forall>m<n. \<exists>bm emm. iterate_body draws e m s = Some (Inr (bm, emm, snd (snd s) + m))
                  \<and> unique_cond tot (bm, emm, snd (snd s) + m))
      \<and> (fst (snd s) \<le> tot \<longrightarrow> em' \<le> tot)
      \<and> (snd (snd s) \<le> 243 \<longrightarrow> snd (snd s) + n \<le> 243)"
  using d
proof (induction draws tot e s rule: unique_loop.induct)
  case (1 draws tot e s)
  obtain b em at where s: "s = (b, em, at)" by (cases s)
  have b: "is9x9 b" using "1.prems" s by simp
  show ?case
  proof (cases "unique_cond tot s")
    case False
    have "unique_loop draws tot e s = Some (Inr (b, em, at + 0))"
      using False s by (subst unique_loop.simps) simp
    moreover have "iterate_body draws e 0 s = Some (Inr (b, em, at + 0))" using s by simp
    moreover have "\<not> unique_cond tot (b, em, at + 0)" using False s by simp
    ultimately show ?thesis unfolding s by (intro exI [of _ 0] exI [of _ b] exI [of _ em]) simp
  next
    case True
    then have c: "em < tot" "at < 243" using s by (simp_all add: unique_cond_def)
    from unique_body_step [OF b "1.prems"(2), of e em at] obtain b1 em1 where
      st: "unique_body draws e s = Some (Inr (b1, em1, Suc at))" "is9x9 b1" "em1 \<le> em + 1"
      unfolding s by auto
    from "1.IH" [OF True st(1)] st(2) "1.prems"(2) obtain n b' em' where
      ih: "unique_loop draws tot e (b1, em1, Suc at) = Some (Inr (b', em', Suc at + n))"
        "iterate_body draws e n (b1, em1, Suc at) = Some (Inr (b', em', Suc at + n))"
        "\<not> unique_cond tot (b', em', Suc at + n)"
        "\<forall>m<n. \<exists>bm emm. iterate_body draws e m (b1, em1, Suc at) = Some (Inr (bm, emm, Suc at + m))
                  \<and> unique_cond tot (bm, emm, Suc at + m)"
        "em1 \<le> tot \<longrightarrow> em' \<le> tot" "Suc at \<le> 243 \<longrightarrow> Suc at + n \<le> 243"
      by auto
    have l: "unique_loop draws tot e s = Some (Inr (b', em', at + Suc n))"
      using True st(1) ih(1) by (subst unique_loop.simps) simp
    have i: "iterate_body draws e (Suc n) s = Some (Inr (b', em', at + Suc n))"
      using st(1) ih(2) by (simp add: iterate_body_front del: iterate_body.simps)
    have nc: "\<not> unique_cond tot (b', em', at + Suc n)" using ih(3) by simp
    have tr: "\<forall>m<Suc n. \<exists>bm emm. iterate_body draws e m s = Some (Inr (bm, emm, at + m))
                  \<and> unique_cond tot (bm, emm, at + m)"
    proof (intro allI impI)
      fix m assume m: "m < Suc n"
      show "\<exists>bm emm. iterate_body draws e m s = Some (Inr (bm, emm, at + m))
                  \<and> unique_cond tot (bm, emm, at + m)"
      proof (cases m)
        case 0
        then show ?thesis using True s by simp
      next
        case (Suc m')
        then have "m' < n" using m by simp
        with ih(4) obtain bm emm where
          "iterate_body draws e m' (b1, em1, Suc at) = Some (Inr (bm, emm, Suc at + m'))"
          "unique_cond tot (bm, emm, Suc at + m')" by blast
        then show ?thesis unfolding Suc using st(1)
          by (simp add: iterate_body_front del: iterate_body.simps)
      qed
    qed
    have e1: "em' \<le> tot" using ih(5) c(1) st(3) by simp
    have a1: "at + Suc n \<le> 243" using ih(6) c(2) by simp
    show ?thesis unfolding s
      using l i nc tr e1 a1 unfolding s
      by (intro exI [of _ "Suc n"] exI [of _ b'] exI [of _ em']) simp
  qed
qed

lemma carve_loop_spec:
  assumes run: "carve_loop draws e i b tot = Some y"
  shows "draws_ok draws \<longrightarrow> is9x9 b \<longrightarrow>
         (\<exists>b'. y = Inr b' \<and> is9x9 b' \<and> int (count_empty b' e) = int (count_empty b e) + max 0 tot
              \<and> (\<forall>s. extends b s e \<longrightarrow> extends b' s e))"
proof (rule carve_loop.raw_induct [where P = "\<lambda>draws e i b tot y. draws_ok draws \<longrightarrow> is9x9 b \<longrightarrow>
         (\<exists>b'. y = Inr b' \<and> is9x9 b' \<and> int (count_empty b' e) = int (count_empty b e) + max 0 tot
              \<and> (\<forall>s. extends b s e \<longrightarrow> extends b' s e))", OF _ run], intro impI)
  fix carve :: "(nat \<Rightarrow> int \<times> int) \<Rightarrow> cell \<Rightarrow> nat \<Rightarrow> board \<Rightarrow> int \<Rightarrow> (error + board) option"
  fix draws e i b tot y
  assume IH: "\<And>draws e i b tot y. carve draws e i b tot = Some y \<Longrightarrow> draws_ok draws \<longrightarrow> is9x9 b \<longrightarrow>
         (\<exists>b'. y = Inr b' \<and> is9x9 b' \<and> int (count_empty b' e) = int (count_empty b e) + max 0 tot
              \<and> (\<forall>s. extends b s e \<longrightarrow> extends b' s e))"
  assume body: "(if 0 < tot
      then case draws i of
           (row, col) \<Rightarrow>
             case get_cell b row col of Inl err \<Rightarrow> Some (Inl err)
             | Inr v \<Rightarrow>
                 if v = e then carve draws e (i + 1) b tot
                 else case set_cell b row col e of Inl err \<Rightarrow> Some (Inl err)
                      | Inr b1 \<Rightarrow> carve draws e (i + 1) b1 (tot - 1)
      else Some (Inr b)) = Some y"
  assume d: "draws_ok draws" and b: "is9x9 b"
  show "\<exists>b'. y = Inr b' \<and> is9x9 b' \<and> int (count_empty b' e) = int (count_empty b e) + max 0 tot
              \<and> (\<forall>s. extends b s e \<longrightarrow> extends b' s e)"
  proof (cases "tot > 0")
    case False
    then have "y = Inr b" using body by simp
    then show ?thesis using b False by simp
  next
    case True
    from d obtain r c where rc: "r < 9" "c < 9" "draws i = (int r, int c)"
      by (rule draws_ok_nat)
    have g: "get_cell b (int r) (int c) = Inr (b ! r ! c)"
      using b rc by (simp add: get_cell_nat)
    show ?thesis
    proof (cases "b ! r ! c = e")
      case e: True
      then have "carve draws e (i + 1) b tot = Some y"
        using body True rc(3) g by simp
      from IH [OF this] d b show ?thesis by blast
    next
      case False
      let ?b1 = "upd b r c e"
      have b1: "is9x9 ?b1" using b by (rule is9x9_upd)
      have sc: "set_cell b (int r) (int c) e = Inr ?b1"
        using b rc by (simp add: set_cell_nat)
      have "carve draws e (i + 1) ?b1 (tot - 1) = Some y"
        using body True rc(3) g False sc by simp
      from IH [OF this] d b1 obtain b' where
        b': "y = Inr b'" "is9x9 b'"
          "int (count_empty b' e) = int (count_empty ?b1 e) + max 0 (tot - 1)"
          "\<forall>s. extends ?b1 s e \<longrightarrow> extends b' s e" by blast
      have "count_empty ?b1 e = Suc (count_empty b e)"
        using b rc(1,2) False by (rule count_empty_clear)
      then have cnt: "int (count_empty b' e) = int (count_empty b e) + max 0 tot"
        using b'(3) True by simp
      have "extends ?b1 s e" if "extends b s e" for s
        unfolding extends_def
      proof (intro allI impI)
        fix p q assume pq: "p < 9" "q < 9" "?b1 ! p ! q \<noteq> e"
        then have "\<not> (p = r \<and> q = c)" using b rc by (auto simp: upd_at)
        then have "?b1 ! p ! q = b ! p ! q" using b rc pq by (auto simp: upd_at)
        then show "s ! p ! q = ?b1 ! p ! q" using that pq unfolding extends_def by metis
      qed
      then show ?thesis using b'(1,2,4) cnt by blast
    qed
  qed
qed



lemma seeded_example_placed:
  "place_seeds (replicate 9 (replicate 9 (IntV 0))) (zip [0, 6, 8] [5, 6, 1]) = Inr seeded_example"
  by code_simp

lemma seeded_example_filled:
  "fill_board seeded_example (IntV 0) = Some (Inr (True, solved_example))"
  by code_simp

lemma carve_example:
  "carve_loop row_major (IntV 0) 0 solved_example 45 = Some (Inr carved_example)"
  by code_simp

lemma unique_example:
  "unique_loop top_left 2 (IntV 0) (solved_example, 0, 0) = Some (Inr (single_example, 1, 243))"
  by code_simp

lemma generate_example:
  "generate 45 False (IntV 0) [0, 6, 8] [5, 6, 1] row_major
   = Some (Inr (carved_example, solved_example))"
  unfolding generate_def Let_def seeded_example_placed sum.case seeded_example_filled
    option.case prod.case carve_example
  by simp

lemma generate_unique_example:
  "generate 2 True (IntV 0) [0, 6, 8] [5, 6, 1] top_left
   = Some (Inr (single_example, solved_example))"
  unfolding generate_def Let_def seeded_example_placed sum.case seeded_example_filled
    option.case prod.case create_unique_board_def unique_example
  by simp

lemma is9x9_examples:
  "is9x9 solved_example" "is9x9 multi_example" "is9x9 unsolvable_example"
  "is9x9 single_example" "is9x9 duplicate_example" "is9x9 carved_example"
  by (simp_all add: is9x9_def solved_example_def multi_example_def unsolvable_example_def
      single_example_def duplicate_example_def carved_example_def)

lemma seeds_ok_example: "seeds_ok [0, 6, 8] [5, 6, 1]"
  by (simp add: seeds_ok_def)

lemma draws_ok_row_major: "draws_ok row_major"
proof -
  have "n mod 9 \<le> 8" for n :: nat by presburger
  then show ?thesis by (simp add: draws_ok_def row_major_def)
qed

lemma draws_ok_top_left: "draws_ok top_left"
  by (simp add: draws_ok_def top_left_def)

lemma not_digit_zero: "\<not> is_digit (IntV 0)"
  by (simp add: is_digit_def)

lemma count_empty_examples:
  "count_empty multi_example (IntV 0) = 7" "count_empty carved_example (IntV 0) = 45"
  "count_empty solved_example (IntV 0) = 0" "count_empty single_example (IntV 0) = 1"
  by code_simp+

lemma extends_clear:
  assumes "is9x9 b" "r < 9" "c < 9" "extends b s e"
  shows "extends (upd b r c e) s e"
  unfolding extends_def
proof (intro allI impI)
  fix p q assume pq: "p < 9" "q < 9" "upd b r c e ! p ! q \<noteq> e"
  then have "\<not> (p = r \<and> q = c)" using assms(1-3) by (auto simp: upd_at)
  then have "upd b r c e ! p ! q = b ! p ! q" using assms(1-3) pq by (auto simp: upd_at)
  then show "s ! p ! q = upd b r c e ! p ! q"
    using assms(4) pq unfolding extends_def by metis
qed

lemma extends_refl: "extends b b e"
  by (simp add: extends_def)

lemma count_solutions_fuel_full:
  assumes "is9x9 b" "full_board b e"
  shows "count_solutions_fuel (Suc n) b lim e = Some (Inr (1, b))"
proof (rule get_empty_cases [OF assms(1), of e])
  assume "get_empty b e = Inr None"
  then show ?thesis by simp
next
  fix r c assume "r < 9" "c < 9" "b ! r ! c = e"
  then show ?thesis using assms(2) by (simp add: full_board_def)
qed

lemma generate_unfold:
  assumes "seeds_ok cells vals" "\<not> is_digit e"
  obtains sol where "is9x9 sol" "full_board sol e" "legal sol e"
    "generate tot unique e cells vals draws =
       (if \<not> (0 < tot \<and> tot \<le> 81) then Some (Inl ValueError)
        else if unique then
          (case create_unique_board sol tot e draws of
             None \<Rightarrow> None
           | Some (Inl err) \<Rightarrow> Some (Inl err)
           | Some (Inr b1) \<Rightarrow> Some (Inr (b1, sol)))
        else
          (case carve_loop draws e 0 sol tot of
             None \<Rightarrow> None
           | Some (Inl err) \<Rightarrow> Some (Inl err)
           | Some (Inr b1) \<Rightarrow> Some (Inr (b1, sol))))"
proof -
  from generate_solved [OF assms] obtain b0 sol where
    s: "place_seeds (replicate 9 (replicate 9 e)) (zip cells vals) = Inr b0"
      "fill_board b0 e = Some (Inr (True, sol))" "is9x9 sol" "full_board sol e" "legal sol e"
    by blast
  show ?thesis
  proof (rule that [OF s(3-5)])
    show "generate tot unique e cells vals draws =
       (if \<not> (0 < tot \<and> tot \<le> 81) then Some (Inl ValueError)
        else if unique then
          (case create_unique_board sol tot e draws of
             None \<Rightarrow> None
           | Some (Inl err) \<Rightarrow> Some (Inl err)
           | Some (Inr b1) \<Rightarrow> Some (Inr (b1, sol)))
        else
          (case carve_loop draws e 0 sol tot of
             None \<Rightarrow> None
           | Some (Inl err) \<Rightarrow> Some (Inl err)
           | Some (Inr b1) \<Rightarrow> Some (Inr (b1, sol))))"
      unfolding generate_def Let_def s(1) sum.case s(2) option.case prod.case ..
  qed
qed

lemma unique_states:
  assumes d: "draws_ok draws" and sol: "is9x9 sol" "full_board sol e"
  shows "\<exists>bm emm. iterate_body draws e m (sol, 0, 0) = Some (Inr (bm, emm, m)) \<and> is9x9 bm
           \<and> count_solutions bm 2 e = Some (Inr (1, bm)) \<and> extends bm sol e
           \<and> int (count_empty bm e) = emm"
proof -
  define P where "P b em \<longleftrightarrow> count_solutions b 2 e = Some (Inr (1, b)) \<and> extends b sol e
      \<and> int (count_empty b e) = em" for b em
  have "count_solutions sol 2 e = Some (Inr (1, sol))"
    unfolding count_solutions_def by (rule count_solutions_fuel_full [OF sol])
  moreover have "count_empty sol e = 0" using full_board_count [OF sol(1)] sol(2) by simp
  ultimately have P0: "P sol 0" by (simp add: P_def extends_refl)
  have step: "P (upd b r c e) (em + 1)"
    if "is9x9 b" "P b em" "r < 9" "c < 9" "b ! r ! c \<noteq> e"
      "count_solutions (upd b r c e) 2 e = Some (Inr (1, upd b r c e))" for b em r c
  proof -
    have "extends (upd b r c e) sol e"
      using that(1,2,3,4) by (intro extends_clear) (simp_all add: P_def)
    moreover have "int (count_empty (upd b r c e) e) = em + 1"
      using count_empty_clear [OF that(1,3,4,5)] that(2) by (simp add: P_def)
    ultimately show ?thesis using that(6) unfolding P_def by blast
  qed
  from iterate_body_invariant [of draws sol P 0 e m 0, OF d sol(1) P0 step]
  obtain b em where "iterate_body draws e m (sol, 0, 0) = Some (Inr (b, em, 0 + m))" "is9x9 b" "P b em"
    by blast
  then show ?thesis unfolding P_def by auto
qed

lemma py_getitem_in_range:
  "- int (length xs) \<le> i \<Longrightarrow> i < int (length xs) \<Longrightarrow> \<exists>v. py_getitem xs i = Inr v"
  by (simp add: py_getitem_def Let_def)

lemma py_getitem_out_range:
  "\<not> (- int (length xs) \<le> i \<and> i < int (length xs)) \<Longrightarrow> py_getitem xs i = Inl IndexError"
  by (auto simp: py_getitem_def Let_def)

lemma column_of_in_range:
  "\<forall>row \<in> set b. length row = 9 \<Longrightarrow> - 9 \<le> col \<Longrightarrow> col \<le> 8 \<Longrightarrow> \<exists>vs. column_of b col = Inr vs"
proof (induction b)
  case Nil
  show ?case by simp
next
  case (Cons r rs)
  have "\<exists>v. py_getitem r col = Inr v"
    using Cons.prems by (intro py_getitem_in_range) simp_all
  moreover have "\<exists>vs. column_of rs col = Inr vs" using Cons by simp
  ultimately show ?case by auto
qed

lemma column_of_out_range:
  assumes "is9x9 b" "\<not> (- 9 \<le> col \<and> col \<le> 8)"
  shows "column_of b col = Inl IndexError"
proof -
  from assms(1) obtain r rs where b: "b = r # rs" "length r = 9"
    by (cases b) (auto simp: is9x9_def)
  have "py_getitem r col = Inl IndexError"
    using assms(2) b(2) by (intro py_getitem_out_range) auto
  then show ?thesis by (simp add: b(1))
qed

lemma square_rows_in_range:
  "\<forall>i \<in> set ixs. \<exists>r. py_getitem b (y + i) = Inr r \<Longrightarrow> \<exists>sq. square_rows b y x ixs acc = Inr sq"
proof (induction ixs arbitrary: acc)
  case Nil
  show ?case by simp
next
  case (Cons i ixs)
  then obtain r where "py_getitem b (y + i) = Inr r" by auto
  then show ?case using Cons by simp
qed

lemma get_values_in_square_in_range:
  assumes "is9x9 b" "- 9 \<le> row" "row \<le> 8"
  shows "\<exists>sq. get_values_in_square b row col = Inr sq"
proof -
  have y: "- 9 \<le> row div 3 * 3" "row div 3 * 3 \<le> 6" using assms(2,3) by presburger+
  have "\<forall>i \<in> set [0, 1, 2]. \<exists>r. py_getitem b (row div 3 * 3 + i) = Inr r"
  proof
    fix i :: int assume "i \<in> set [0, 1, 2]"
    then have "0 \<le> i" "i \<le> 2" by auto
    then show "\<exists>r. py_getitem b (row div 3 * 3 + i) = Inr r"
      using y assms(1) by (intro py_getitem_in_range) (simp_all add: is9x9_def)
  qed
  from square_rows_in_range [OF this] show ?thesis
    by (simp add: get_values_in_square_def Let_def)
qed

lemma is_valid_entry_in_range:
  assumes "is9x9 b" "- 9 \<le> row" "row \<le> 8" "- 9 \<le> col" "col \<le> 8"
  shows "\<exists>ok. is_valid_entry b row col v = Inr ok"
proof -
  from column_of_in_range [OF _ assms(4,5), of b] assms(1) obtain vs where
    "column_of b col = Inr vs" by (auto simp: is9x9_def)
  moreover from py_getitem_in_range [of b row] assms(1-3) obtain r where
    "py_getitem b row = Inr r" by (auto simp: is9x9_def)
  moreover from get_values_in_square_in_range [OF assms(1-3), of col] obtain sq where
    "get_values_in_square b row col = Inr sq" by blast
  ultimately show ?thesis by (auto simp: is_valid_entry_def)
qed

lemma is_valid_entry_out_range:
  assumes "is9x9 b" "\<not> (- 9 \<le> row \<and> row \<le> 8 \<and> - 9 \<le> col \<and> col \<le> 8)"
  shows "is_valid_entry b row col v = Inl IndexError"
proof (cases "- 9 \<le> col \<and> col \<le> 8")
  case False
  from column_of_out_range [OF assms(1) this] show ?thesis by (simp add: is_valid_entry_def)
next
  case True
  then obtain vs where c: "column_of b col = Inr vs"
    using column_of_in_range [of b col] assms(1) by (auto simp: is9x9_def)
  have "\<not> (- int (length b) \<le> row \<and> row < int (length b))"
    using assms True by (auto simp: is9x9_def)
  from py_getitem_out_range [OF this] show ?thesis using c by (simp add: is_valid_entry_def)
qed

section \<open>The claims\<close>

text \<open>
  C1 (as stated): with \<open>limit = 2\<close>, \<open>count_solutions\<close> never returns more than 2.
  This fails: the running count is below the limit only before the last addition, and the
  recursive call it adds can itself return the limit or more. On \<open>multi_example\<close> the call
  returns 3.
\<close>

theorem count_solutions_exceeds_limit:
  "count_solutions multi_example 2 (IntV 0) = Some (Inr (3, multi_example))"
  by code_simp

text \<open>
  C1 (amended): on every 9x9 grid \<open>count_solutions\<close> with \<open>limit = 2\<close> returns an integer
  that is at least 0 and at most one more than the number of empty cells of the grid.
\<close>

theorem count_solutions_bound:
  assumes "is9x9 b"
  shows "\<exists>k. count_solutions b 2 e = Some (Inr (k, b)) \<and> 0 \<le> k \<and> k \<le> 1 + int (count_empty b e)"
  using count_solutions_spec [OF assms, of 2 e] by simp

theorem count_solutions_bound_witness:
  "\<exists>k. count_solutions multi_example 2 (IntV 0) = Some (Inr (k, multi_example)) \<and> 0 \<le> k \<and> k \<le> 8"
  using count_solutions_bound [OF is9x9_examples(2), of "IntV 0"]
  by (simp add: count_empty_examples)

text \<open>
  C2: for every \<open>total_empties\<close> in 1..81, every result of the random module and every
  empty indicator that is not a digit, \<open>generate\<close> with \<open>unique = True\<close> returns a puzzle
  on which \<open>count_solutions(puzzle, 2)\<close> is 1; the puzzle is the state of the carving loop
  after some number \<open>n\<close> of iterations, and after every iteration (so after every accepted
  removal) \<open>count_solutions\<close> of the current board with limit 2 is 1.
\<close>

theorem generate_unique_invariant:
  assumes "0 < total_empties" "total_empties \<le> 81" "seeds_ok cells vals" "draws_ok draws"
    "\<not> is_digit e"
  shows "\<exists>puzzle sol n em.
           generate total_empties True e cells vals draws = Some (Inr (puzzle, sol))
         \<and> count_solutions puzzle 2 e = Some (Inr (1, puzzle))
         \<and> iterate_body draws e n (sol, 0, 0) = Some (Inr (puzzle, em, n))
         \<and> (\<forall>m. \<exists>bm emm. iterate_body draws e m (sol, 0, 0) = Some (Inr (bm, emm, m))
                  \<and> count_solutions bm 2 e = Some (Inr (1, bm)))"
proof -
  obtain sol where sol: "is9x9 sol" "full_board sol e"
      "generate total_empties True e cells vals draws =
         (case create_unique_board sol total_empties e draws of
            None \<Rightarrow> None
          | Some (Inl err) \<Rightarrow> Some (Inl err)
          | Some (Inr b1) \<Rightarrow> Some (Inr (b1, sol)))"
  proof (rule generate_unfold [OF assms(3,5), of total_empties True draws])
    fix s assume "is9x9 s" "full_board s e"
      "generate total_empties True e cells vals draws =
       (if \<not> (0 < total_empties \<and> total_empties \<le> 81) then Some (Inl ValueError)
        else if True then
          (case create_unique_board s total_empties e draws of
             None \<Rightarrow> None
           | Some (Inl err) \<Rightarrow> Some (Inl err)
           | Some (Inr b1) \<Rightarrow> Some (Inr (b1, s)))
        else
          (case carve_loop draws e 0 s total_empties of
             None \<Rightarrow> None
           | Some (Inl err) \<Rightarrow> Some (Inl err)
           | Some (Inr b1) \<Rightarrow> Some (Inr (b1, s))))"
    then show ?thesis using assms(1,2) by (intro that [of s]) simp_all
  qed
  from unique_loop_spec [OF assms(4), of "(sol, 0, 0)" total_empties e] sol(1) obtain n b' em' where
    l: "unique_loop draws total_empties e (sol, 0, 0) = Some (Inr (b', em', n))"
      "iterate_body draws e n (sol, 0, 0) = Some (Inr (b', em', n))" by auto
  have g: "generate total_empties True e cells vals draws = Some (Inr (b', sol))"
    using sol(3) l(1) by (simp add: create_unique_board_def)
  have all: "\<exists>bm emm. iterate_body draws e m (sol, 0, 0) = Some (Inr (bm, emm, m))
                  \<and> count_solutions bm 2 e = Some (Inr (1, bm))" for m
    using unique_states [OF assms(4) sol(1,2), of m] by blast
  from all [of n] l(2) have "count_solutions b' 2 e = Some (Inr (1, b'))" by auto
  then show ?thesis using g l(2) all by blast
qed

theorem generate_unique_invariant_witness:
  "generate 2 True (IntV 0) [0, 6, 8] [5, 6, 1] top_left = Some (Inr (single_example, solved_example))
   \<and> count_solutions single_example 2 (IntV 0) = Some (Inr (1, single_example))"
proof -
  have "(0::int) < 2" "(2::int) \<le> 81" by simp_all
  from generate_unique_invariant [OF this seeds_ok_example draws_ok_top_left not_digit_zero]
  show ?thesis by (auto simp: generate_unique_example)
qed

text \<open>
  C3: for every result of the random module, every empty indicator that is not a digit
  and either value of \<open>unique\<close>, a pair \<open>(puzzle, solution)\<close> returned by \<open>generate\<close> has two
  9x9 grids, the solution has no empty cell and passes \<open>is_valid_board\<close> (which returns
  true and leaves it as it is), and every non-empty cell of the puzzle equals the cell of
  the solution at the same position.
\<close>

theorem generate_output_contract:
  assumes "seeds_ok cells vals" "draws_ok draws" "\<not> is_digit e"
    "generate total_empties unique e cells vals draws = Some (Inr (puzzle, sol))"
  shows "is9x9 puzzle \<and> is9x9 sol \<and> full_board sol e
       \<and> is_valid_board sol e = Inr (True, sol) \<and> extends puzzle sol e"
proof -
  from generate_unfold [OF assms(1,3), of total_empties unique draws] obtain s where
    s: "is9x9 s" "full_board s e" "legal s e"
      "generate total_empties unique e cells vals draws =
       (if \<not> (0 < total_empties \<and> total_empties \<le> 81) then Some (Inl ValueError)
        else if unique then
          (case create_unique_board s total_empties e draws of
             None \<Rightarrow> None
           | Some (Inl err) \<Rightarrow> Some (Inl err)
           | Some (Inr b1) \<Rightarrow> Some (Inr (b1, s)))
        else
          (case carve_loop draws e 0 s total_empties of
             None \<Rightarrow> None
           | Some (Inl err) \<Rightarrow> Some (Inl err)
           | Some (Inr b1) \<Rightarrow> Some (Inr (b1, s))))"
    by blast
  have range: "0 < total_empties \<and> total_empties \<le> 81"
    using s(4) assms(4) by (auto split: if_splits)
  have "sol = s \<and> is9x9 puzzle \<and> extends puzzle s e"
  proof (cases unique)
    case True
    from unique_loop_spec [OF assms(2), of "(s, 0, 0)" total_empties e] s(1) obtain n b' em' where
      l: "unique_loop draws total_empties e (s, 0, 0) = Some (Inr (b', em', n))"
        "iterate_body draws e n (s, 0, 0) = Some (Inr (b', em', n))" by auto
    from unique_states [OF assms(2) s(1,2), of n] l(2) have "is9x9 b'" "extends b' s e" by auto
    moreover have "generate total_empties unique e cells vals draws = Some (Inr (b', s))"
      using s(4) range True l(1) by (simp add: create_unique_board_def)
    ultimately show ?thesis using assms(4) by simp
  next
    case False
    then have c: "(case carve_loop draws e 0 s total_empties of
             None \<Rightarrow> None
           | Some (Inl err) \<Rightarrow> Some (Inl err)
           | Some (Inr b1) \<Rightarrow> Some (Inr (b1, s))) = Some (Inr (puzzle, sol))"
      using s(4) range assms(4) by simp
    then obtain y where y: "carve_loop draws e 0 s total_empties = Some y"
      by (cases "carve_loop draws e 0 s total_empties") auto
    from carve_loop_spec [OF y] assms(2) s(1) obtain b' where
      b': "y = Inr b'" "is9x9 b'" "\<forall>t. extends s t e \<longrightarrow> extends b' t e" by blast
    have "extends b' s e" using b'(3) extends_refl by blast
    then show ?thesis using c y b'(1,2) by simp
  qed
  then show ?thesis using s(1-3) is_valid_board_legal [OF s(1,3)] by simp
qed

theorem generate_output_contract_witness:
  "is9x9 carved_example \<and> is9x9 solved_example \<and> full_board solved_example (IntV 0)
   \<and> is_valid_board solved_example (IntV 0) = Inr (True, solved_example)
   \<and> extends carved_example solved_example (IntV 0)"
  by (rule generate_output_contract
        [OF seeds_ok_example draws_ok_row_major not_digit_zero generate_example])

text \<open>
  C4: \<open>is_valid_board\<close> leaves the grid unchanged, whether it returns true or false.
  On \<open>duplicate_example\<close> (two fives in row 0) the call returns false at the first cell,
  before the statement that resets the cell, and the cell \<open>board[0][0]\<close> holds the empty
  indicator afterwards.
\<close>

theorem is_valid_board_leaves_cell_cleared:
  "is_valid_board duplicate_example (IntV 0) = Inr (False, duplicate_example_after)"
  by code_simp

theorem is_valid_board_leaves_cell_cleared_witness:
  "get_cell duplicate_example 0 0 = Inr (IntV 5)
   \<and> (case is_valid_board duplicate_example (IntV 0) of
        Inl err \<Rightarrow> Inl err
      | Inr (ok, b') \<Rightarrow> get_cell b' 0 0) = Inr (IntV 0)"
  unfolding is_valid_board_leaves_cell_cleared
  by (simp add: get_cell_def py_getitem_def duplicate_example_def duplicate_example_after_def)

text \<open>
  C5 (as stated): a 9x9 grid with two identical non-empty values in one row makes
  \<open>fill_board\<close> return false. This fails: \<open>fill_board\<close> never compares the given cells
  with each other, and a grid with no empty cell returns true at once.
\<close>

theorem fill_board_true_on_duplicate:
  "duplicate_example ! 0 ! 0 = duplicate_example ! 0 ! 1
   \<and> duplicate_example ! 0 ! 0 = IntV 5
   \<and> fill_board duplicate_example (IntV 0) = Some (Inr (True, duplicate_example))"
  by code_simp

text \<open>
  C5 (amended): on every 9x9 grid \<open>fill_board\<close> returns, and whenever it returns false
  the grid on return is the grid that was passed in: every cell the search filled holds
  the empty indicator again.
\<close>

theorem fill_board_false_restores:
  assumes "is9x9 b"
  shows "\<exists>ok b'. fill_board b e = Some (Inr (ok, b')) \<and> (\<not> ok \<longrightarrow> b' = b)"
proof -
  have "count_empty b e < Suc (count_empty b e)" by simp
  from fill_board_fuel_spec [OF assms this] obtain ok b' where
    "fill_board b e = Some (Inr (ok, b'))" "fill_result b e ok b'"
    by (auto simp: fill_board_def)
  then show ?thesis by (auto simp: fill_result_def)
qed

theorem fill_board_false_restores_witness:
  "unsolvable_example ! 4 ! 6 = unsolvable_example ! 4 ! 7
   \<and> fill_board unsolvable_example (IntV 0) = Some (Inr (False, unsolvable_example))"
proof -
  have f: "fill_board unsolvable_example (IntV 0) = Some (Inr (False, unsolvable_example))"
    by code_simp
  have "unsolvable_example ! 4 ! 6 = unsolvable_example ! 4 ! 7"
    by (simp add: unsolvable_example_def)
  then show ?thesis
    using fill_board_false_restores [OF is9x9_examples(3), of "IntV 0"] f by simp
qed

text \<open>
  C6: for every 9x9 grid, every limit and every empty indicator, \<open>count_solutions\<close>
  returns, and the grid on return is the grid that was passed in.
\<close>

theorem count_solutions_restores:
  assumes "is9x9 b"
  shows "\<exists>k. count_solutions b limit e = Some (Inr (k, b))"
  using count_solutions_spec [OF assms, of limit e] by blast

theorem count_solutions_restores_witness:
  "\<exists>k. count_solutions unsolvable_example 5 (IntV 0) = Some (Inr (k, unsolvable_example))"
  by (rule count_solutions_restores [OF is9x9_examples(3)])

text \<open>
  C7 (as stated): \<open>is_valid_entry\<close> fails with an out-of-range error whenever the row or
  the column is outside 0..8, in particular for negative indices. This fails: Python's
  negative indices count from the end, so row -1 and column -1 of a 9x9 grid are read
  without an error.
\<close>

theorem is_valid_entry_negative_index:
  "is_valid_entry solved_example (- 1) (- 1) (IntV 5) = Inr False"
  by code_simp

text \<open>
  C7 (amended): on a 9x9 grid \<open>is_valid_entry\<close> raises IndexError exactly when the row
  or the column is outside -9..8, and returns a boolean otherwise; for no value argument
  does it raise a value-range error.
\<close>

theorem is_valid_entry_errors:
  assumes "is9x9 b"
  shows "(if - 9 \<le> row \<and> row \<le> 8 \<and> - 9 \<le> col \<and> col \<le> 8
          then \<exists>ok. is_valid_entry b row col v = Inr ok
          else is_valid_entry b row col v = Inl IndexError)
       \<and> is_valid_entry b row col v \<noteq> Inl ValueError"
proof (cases "- 9 \<le> row \<and> row \<le> 8 \<and> - 9 \<le> col \<and> col \<le> 8")
  case True
  then obtain ok where "is_valid_entry b row col v = Inr ok"
    using is_valid_entry_in_range [OF assms, of row col v] by blast
  then show ?thesis using True by simp
next
  case False
  from is_valid_entry_out_range [OF assms this, of v] show ?thesis using False by simp
qed

theorem is_valid_entry_errors_witness:
  "(\<exists>ok. is_valid_entry solved_example (- 9) 8 (IntV 12) = Inr ok)
   \<and> is_valid_entry solved_example 9 0 (IntV 5) = Inl IndexError
   \<and> is_valid_entry solved_example 0 (- 10) (IntV 5) = Inl IndexError
   \<and> is_valid_entry solved_example (- 9) 8 (IntV 12) \<noteq> Inl ValueError"
  using is_valid_entry_errors [OF is9x9_examples(1), of "- 9" 8 "IntV 12"]
    is_valid_entry_errors [OF is9x9_examples(1), of 9 0 "IntV 5"]
    is_valid_entry_errors [OF is9x9_examples(1), of 0 "- 10" "IntV 5"]
  by simp

text \<open>
  C8: for every \<open>total_empties\<close> in 1..81, every empty indicator that is not a digit and
  every result of the random module on which the call returns, \<open>generate\<close> with
  \<open>unique = False\<close> returns a pair, with no error; the puzzle has exactly
  \<open>total_empties\<close> empty cells and the solution has none.
\<close>

theorem generate_non_unique_count:
  assumes "0 < total_empties" "total_empties \<le> 81" "seeds_ok cells vals" "draws_ok draws"
    "\<not> is_digit e"
    "generate total_empties False e cells vals draws = Some res"
  shows "\<exists>puzzle sol. res = Inr (puzzle, sol) \<and> int (count_empty puzzle e) = total_empties
           \<and> count_empty sol e = 0"
proof -
  obtain s where s: "is9x9 s" "full_board s e"
      "generate total_empties False e cells vals draws =
         (case carve_loop draws e 0 s total_empties of
            None \<Rightarrow> None
          | Some (Inl err) \<Rightarrow> Some (Inl err)
          | Some (Inr b1) \<Rightarrow> Some (Inr (b1, s)))"
  proof (rule generate_unfold [OF assms(3,5), of total_empties False draws])
    fix t assume "is9x9 t" "full_board t e"
      "generate total_empties False e cells vals draws =
       (if \<not> (0 < total_empties \<and> total_empties \<le> 81) then Some (Inl ValueError)
        else if False then
          (case create_unique_board t total_empties e draws of
             None \<Rightarrow> None
           | Some (Inl err) \<Rightarrow> Some (Inl err)
           | Some (Inr b1) \<Rightarrow> Some (Inr (b1, t)))
        else
          (case carve_loop draws e 0 t total_empties of
             None \<Rightarrow> None
           | Some (Inl err) \<Rightarrow> Some (Inl err)
           | Some (Inr b1) \<Rightarrow> Some (Inr (b1, t))))"
    then show ?thesis using assms(1,2) by (intro that [of t]) simp_all
  qed
  have z: "count_empty s e = 0" using full_board_count [OF s(1)] s(2) by simp
  from s(3) assms(6) obtain y where y: "carve_loop draws e 0 s total_empties = Some y"
    by (cases "carve_loop draws e 0 s total_empties") auto
  from carve_loop_spec [OF y] assms(4) s(1) obtain b' where
    b': "y = Inr b'" "int (count_empty b' e) = int (count_empty s e) + max 0 total_empties"
    by blast
  have "res = Inr (b', s)" using s(3) assms(6) y b'(1) by simp
  moreover have "int (count_empty b' e) = total_empties" using b'(2) z assms(1) by simp
  ultimately show ?thesis using z by blast
qed

theorem generate_non_unique_count_witness:
  "generate 45 False (IntV 0) [0, 6, 8] [5, 6, 1] row_major = Some (Inr (carved_example, solved_example))
   \<and> count_empty carved_example (IntV 0) = 45 \<and> count_empty solved_example (IntV 0) = 0"
proof -
  have "(0::int) < 45" "(45::int) \<le> 81" by simp_all
  from generate_non_unique_count
    [OF this seeds_ok_example draws_ok_row_major not_digit_zero generate_example]
  show ?thesis by (simp add: generate_example)
qed

text \<open>
  C9: on every 9x9 board and every stream of draws the loop of \<open>_create_unique_board\<close>
  returns without an error after some number \<open>n\<close> of iterations, \<open>n\<close> at most 243; on
  return \<open>empties\<close> has reached \<open>total_empties\<close> or \<open>n\<close> is 243; before each of the \<open>n\<close>
  iterations \<open>empties\<close> was below \<open>total_empties\<close> and fewer than 243 attempts had been
  made; the board returned has \<open>empties\<close> more empty cells than the board passed in, and
  \<open>empties\<close> is at most \<open>total_empties\<close> (it can be less).
\<close>

theorem unique_loop_budget:
  assumes "is9x9 b" "draws_ok draws" "0 \<le> total_empties"
  shows "\<exists>n b' em.
           unique_loop draws total_empties e (b, 0, 0) = Some (Inr (b', em, n))
         \<and> create_unique_board b total_empties e draws = Some (Inr b')
         \<and> iterate_body draws e n (b, 0, 0) = Some (Inr (b', em, n))
         \<and> n \<le> 243 \<and> (total_empties \<le> em \<or> n = 243)
         \<and> (\<forall>m<n. \<exists>bm emm. iterate_body draws e m (b, 0, 0) = Some (Inr (bm, emm, m))
                      \<and> emm < total_empties \<and> m < 243)
         \<and> em \<le> total_empties
         \<and> int (count_empty b' e) = int (count_empty b e) + em"
proof -
  from unique_loop_spec [OF assms(2), of "(b, 0, 0)" total_empties e] assms(1,3)
  obtain n b' em where
    l: "unique_loop draws total_empties e (b, 0, 0) = Some (Inr (b', em, n))"
      "iterate_body draws e n (b, 0, 0) = Some (Inr (b', em, n))"
      "\<not> unique_cond total_empties (b', em, n)"
      "\<forall>m<n. \<exists>bm emm. iterate_body draws e m (b, 0, 0) = Some (Inr (bm, emm, m))
                  \<and> unique_cond total_empties (bm, emm, m)"
      "em \<le> total_empties" "n \<le> 243"
    by auto
  define P where "P b' em' \<longleftrightarrow> int (count_empty b' e) = int (count_empty b e) + em'" for b' em'
  have P0: "P b 0" by (simp add: P_def)
  have step: "P (upd c r q e) (k + 1)"
    if "is9x9 c" "P c k" "r < 9" "q < 9" "c ! r ! q \<noteq> e" for c k r q
    using count_empty_clear [OF that(1,3,4,5)] that(2) by (simp add: P_def)
  from iterate_body_invariant [of draws b P 0 e n 0, OF assms(2,1) P0 step] l(2)
  have cnt: "int (count_empty b' e) = int (count_empty b e) + em" by (auto simp: P_def)
  have c: "create_unique_board b total_empties e draws = Some (Inr b')"
    using l(1) by (simp add: create_unique_board_def)
  have stop: "total_empties \<le> em \<or> n = 243"
    using l(3,6) by (auto simp: unique_cond_def)
  have before: "\<forall>m<n. \<exists>bm emm. iterate_body draws e m (b, 0, 0) = Some (Inr (bm, emm, m))
                      \<and> emm < total_empties \<and> m < 243"
    using l(4) by (auto simp: unique_cond_def)
  show ?thesis using l(1,2,5,6) c stop before cnt by blast
qed

theorem unique_loop_budget_witness:
  "create_unique_board solved_example 2 (IntV 0) top_left = Some (Inr single_example)
   \<and> iterate_body top_left (IntV 0) 243 (solved_example, 0, 0) = Some (Inr (single_example, 1, 243))
   \<and> count_empty single_example (IntV 0) = 1"
proof -
  have "(0::int) \<le> 2" by simp
  from unique_loop_budget [OF is9x9_examples(1) draws_ok_top_left this, of "IntV 0"]
  show ?thesis by (auto simp: unique_example count_empty_examples)
qed

text \<open>
  C10: on every 9x9 grid with no cell equal to the empty indicator \<open>count_solutions\<close>
  returns 1, whatever the limit and whether or not the grid is legal: on the grid of
  eighty-one ones it returns 1 although \<open>is_valid_board\<close> returns false.
\<close>

theorem count_solutions_full_board:
  assumes "is9x9 b" "full_board b e"
  shows "count_solutions b limit e = Some (Inr (1, b))"
  unfolding count_solutions_def by (rule count_solutions_fuel_full [OF assms])

theorem count_solutions_full_board_witness:
  "count_solutions (replicate 9 (replicate 9 (IntV 1))) 2 (IntV 0)
     = Some (Inr (1, replicate 9 (replicate 9 (IntV 1))))
   \<and> (\<exists>b'. is_valid_board (replicate 9 (replicate 9 (IntV 1))) (IntV 0) = Inr (False, b'))"
proof -
  have f: "full_board (replicate 9 (replicate 9 (IntV 1))) (IntV 0)"
    by (simp add: full_board_def)
  have "is_valid_board (replicate 9 (replicate 9 (IntV 1))) (IntV 0)
        = Inr (False, (replicate 9 (IntV 1))[0 := IntV 0] # replicate 8 (replicate 9 (IntV 1)))"
    by code_simp
  then show ?thesis
    using count_solutions_full_board [OF is9x9_blank f, of 2] by simp
qed

end
